theory Spec2Isabelle
  imports Main "HOL-Library.Word" "HOL-Library.Sublist"
begin

section \<open>JavaScript strings\<close>

text \<open>
  A JavaScript string is a sequence of UTF-16 code units. \<open>includes\<close>, the regular
  expressions of \<open>parseResponse\<close> (none has the \<open>u\<close> flag) and \<open>trim\<close> all work on
  code units, so a string is modelled as a list of 16-bit words. \<open>js\<close> embeds a
  literal of the source (all of them ASCII).
\<close>

type_synonym code_unit = "16 word"
type_synonym jsstring = "code_unit list"

definition js :: "string \<Rightarrow> jsstring" where
  "js s = map of_char s"

text \<open>
  \<open>String.prototype.trim\<close> removes the WhiteSpace and LineTerminator code points of
  ECMAScript from both ends: TAB, VT, FF, SP, NBSP, ZWNBSP, the space separators, and
  LF, CR, LS, PS. Each of them is one code unit.
\<close>

definition isWhiteSpace :: "code_unit \<Rightarrow> bool" where
  "isWhiteSpace c \<longleftrightarrow>
     c = 0x09 \<or> c = 0x0A \<or> c = 0x0B \<or> c = 0x0C \<or> c = 0x0D \<or> c = 0x20 \<or> c = 0xA0 \<or>
     c = 0x1680 \<or> (0x2000 \<le> c \<and> c \<le> 0x200A) \<or> c = 0x2028 \<or> c = 0x2029 \<or>
     c = 0x202F \<or> c = 0x205F \<or> c = 0x3000 \<or> c = 0xFEFF"

definition trimStart :: "jsstring \<Rightarrow> jsstring" where
  "trimStart s = dropWhile isWhiteSpace s"

definition trimEnd :: "jsstring \<Rightarrow> jsstring" where
  "trimEnd s = rev (dropWhile isWhiteSpace (rev s))"

definition trim :: "jsstring \<Rightarrow> jsstring" where
  "trim s = trimEnd (trimStart s)"

text \<open>\<open>s.includes(p)\<close>: \<open>p\<close> occurs in \<open>s\<close> as a contiguous run of code units.\<close>

definition includes_js :: "jsstring \<Rightarrow> jsstring \<Rightarrow> bool" where
  "includes_js s p = sublist p s"

text \<open>A string in a condition (\<open>if (s)\<close>, \<open>!s\<close>, \<open>s ? a : b\<close>) is true unless empty.\<close>

definition truthy :: "jsstring \<Rightarrow> bool" where
  "truthy s \<longleftrightarrow> s \<noteq> []"

text \<open>\<open>xs.join(sep)\<close>\<close>

fun join :: "jsstring \<Rightarrow> jsstring list \<Rightarrow> jsstring" where
  "join sep [] = []"
| "join sep [x] = x"
| "join sep (x # y # ys) = x @ sep @ join sep (y # ys)"


section \<open>The response parser\<close>

text \<open>
  \<open>parseResponse\<close> (the same function closes every variant of \<open>generate\<close>) runs three
  regular expressions with \<open>String.prototype.match\<close>, none of them global:
  \<^verbatim>\<open>/COMMIT_MESSAGE\n([\s\S]*?)(?=\nPR_TITLE\n)/\<close>,
  \<^verbatim>\<open>/PR_TITLE\n([\s\S]*?)(?=\nPR_BODY\n)/\<close> and \<^verbatim>\<open>/PR_BODY\n([\s\S]*)/\<close>.
  The matcher tries the start positions from left to right (\<open>match_first\<close>). At a
  start position it reads the literal (\<open>literal\<close>); then the lazy group takes the
  fewest code units after which the lookahead holds (\<open>lazy_until\<close>), or, for the
  greedy group of the last expression, everything up to the end. A start position at
  which the lookahead never holds fails, and the search moves one code unit on.
\<close>

fun literal :: "jsstring \<Rightarrow> jsstring \<Rightarrow> jsstring option" where
  "literal [] s = Some s"
| "literal (p # ps) [] = None"
| "literal (p # ps) (c # cs) = (if p = c then literal ps cs else None)"

fun lazy_until :: "jsstring \<Rightarrow> jsstring \<Rightarrow> jsstring option" where
  "lazy_until la [] = (if la = [] then Some [] else None)"
| "lazy_until la (c # cs) =
     (if prefix la (c # cs) then Some [] else map_option ((#) c) (lazy_until la cs))"

fun match_first :: "(jsstring \<Rightarrow> jsstring option) \<Rightarrow> jsstring \<Rightarrow> jsstring option" where
  "match_first m [] = m []"
| "match_first m (c # cs) =
     (case m (c # cs) of Some g \<Rightarrow> Some g | None \<Rightarrow> match_first m cs)"

definition COMMIT_MESSAGE :: jsstring where
  "COMMIT_MESSAGE = js ''COMMIT_MESSAGE''"

definition PR_TITLE :: jsstring where
  "PR_TITLE = js ''PR_TITLE''"

definition PR_BODY :: jsstring where
  "PR_BODY = js ''PR_BODY''"

definition LF :: jsstring where
  "LF = [0x0A]"

text \<open>Each expression at one start position; the result is capture group 1.\<close>

definition commit_re :: "jsstring \<Rightarrow> jsstring option" where
  "commit_re s =
     (case literal (COMMIT_MESSAGE @ LF) s of
        None \<Rightarrow> None
      | Some rest \<Rightarrow> lazy_until (LF @ PR_TITLE @ LF) rest)"

definition prTitle_re :: "jsstring \<Rightarrow> jsstring option" where
  "prTitle_re s =
     (case literal (PR_TITLE @ LF) s of
        None \<Rightarrow> None
      | Some rest \<Rightarrow> lazy_until (LF @ PR_BODY @ LF) rest)"

definition prBody_re :: "jsstring \<Rightarrow> jsstring option" where
  "prBody_re s = literal (PR_BODY @ LF) s"

record ParsedResponse =
  commitMessage :: jsstring
  prTitle :: jsstring
  prBody :: jsstring

definition parseResponse :: "jsstring \<Rightarrow> ParsedResponse" where
  "parseResponse text =
     (let commitMatch = match_first commit_re text;
          prTitleMatch = match_first prTitle_re text;
          prBodyMatch = match_first prBody_re text
      in \<lparr> commitMessage = (case commitMatch of Some g \<Rightarrow> trim g | None \<Rightarrow> text),
           prTitle = (case prTitleMatch of Some g \<Rightarrow> trim g | None \<Rightarrow> []),
           prBody = (case prBodyMatch of Some g \<Rightarrow> trim g | None \<Rightarrow> []) \<rparr>)"


section \<open>The change collector\<close>

text \<open>
  \<open>git.ts\<close> runs git through Bun's shell, which throws when the command exits with a
  status other than zero. The shell is a parameter: what each command prints, or
  the error it throws.
\<close>

datatype cmd = GitDiffCached | GitDiff | GitStatusShort

datatype error = ShellError nat

type_synonym shell = "cmd \<Rightarrow> error + jsstring"

definition getGitDiff :: "shell \<Rightarrow> error + jsstring" where
  "getGitDiff sh =
     (case sh GitDiffCached of
        Inl e \<Rightarrow> Inl e
      | Inr staged \<Rightarrow>
          if truthy (trim staged) then Inr staged
          else (case sh GitDiff of Inl e \<Rightarrow> Inl e | Inr unstaged \<Rightarrow> Inr unstaged))"

definition getChangedFiles :: "shell \<Rightarrow> error + jsstring" where
  "getChangedFiles sh = sh GitStatusShort"


section \<open>Project detection\<close>

text \<open>
  \<open>detectCompany\<close> reads the working directory and the names of the prompt files
  (both parameters here) and returns the first name \<open>n\<close> for which the directory
  includes \<open>/n/\<close>, or \<open>null\<close>.
\<close>

definition slash :: jsstring where
  "slash = [0x2F]"

fun detectCompany :: "jsstring \<Rightarrow> jsstring list \<Rightarrow> jsstring option" where
  "detectCompany cwd [] = None"
| "detectCompany cwd (name # names) =
     (if includes_js cwd (slash @ name @ slash) then Some name else detectCompany cwd names)"


section \<open>The messages of the generation stream\<close>

text \<open>
  The messages that \<open>query\<close> yields, as far as \<open>generate\<close> tells them apart: a stream
  event carrying a content-block delta (thinking or text) or a content-block stop, a
  result with its subtype, and every other message or event.
\<close>

datatype delta = ThinkingDelta jsstring | TextDelta jsstring | OtherDelta

datatype event = ContentBlockDelta delta | ContentBlockStop | OtherEvent

datatype message = StreamEvent event | Result jsstring | OtherMessage

fun isResult :: "message \<Rightarrow> bool" where
  "isResult (Result subtype) = True"
| "isResult m = False"

fun isTextDelta :: "message \<Rightarrow> bool" where
  "isTextDelta (StreamEvent (ContentBlockDelta (TextDelta t))) = True"
| "isTextDelta m = False"

definition success :: jsstring where
  "success = js ''success''"

text \<open>How a run of \<open>generate\<close> ends, as far as it is modelled.\<close>

datatype outcome =
    Exit nat jsstring   \<comment> \<open>\<open>process.exit\<close> with this status, after logging this line\<close>
  | Threw               \<comment> \<open>a shell command failed; the rejection is not caught\<close>
  | Shown ParsedResponse  \<comment> \<open>the three sections were displayed\<close>
  | Hang                \<comment> \<open>an awaited promise is never settled\<close>


section \<open>The generation loop of \<open>src/generate.ts\<close> and \<open>index.ts\<close>\<close>

text \<open>
  The \<open>for await\<close> loop over the stream. A text delta is appended to
  \<open>responseText\<close>; a thinking delta only changes what the terminal shows. A result
  message ends the loop: with a subtype other than \<open>success\<close> the process logs
  \<open>failed subtype\<close> and exits with status 1 inside the loop, otherwise the loop breaks.
  The two files differ in the logged line only (\<open>failed\<close>).
\<close>

fun forAwait :: "(jsstring \<Rightarrow> jsstring) \<Rightarrow> message list \<Rightarrow> jsstring \<Rightarrow> outcome + jsstring" where
  "forAwait failed [] responseText = Inr responseText"
| "forAwait failed (StreamEvent (ContentBlockDelta (ThinkingDelta t)) # ms) responseText =
     forAwait failed ms responseText"
| "forAwait failed (StreamEvent (ContentBlockDelta (TextDelta t)) # ms) responseText =
     forAwait failed ms (responseText @ t)"
| "forAwait failed (StreamEvent ev # ms) responseText = forAwait failed ms responseText"
| "forAwait failed (Result subtype # ms) responseText =
     (if subtype \<noteq> success then Inl (Exit 1 (failed subtype)) else Inr responseText)"
| "forAwait failed (OtherMessage # ms) responseText = forAwait failed ms responseText"

definition respond_with :: "(jsstring \<Rightarrow> jsstring) \<Rightarrow> message list \<Rightarrow> outcome" where
  "respond_with failed ms =
     (case forAwait failed ms [] of
        Inl out \<Rightarrow> out
      | Inr responseText \<Rightarrow>
          if \<not> truthy (trim responseText) then Exit 1 (js ''Empty response from Claude.'')
          else Shown (parseResponse responseText))"

text \<open>\<open>src/generate.ts\<close>, from the loop to the display of the parsed response.\<close>

definition respond :: "message list \<Rightarrow> outcome" where
  "respond ms = respond_with (\<lambda>subtype. js ''Failed: '' @ subtype) ms"

text \<open>The same part of \<open>index.ts\<close>.\<close>

definition respond_plain :: "message list \<Rightarrow> outcome" where
  "respond_plain ms = respond_with (\<lambda>subtype. js ''Generation failed: '' @ subtype) ms"

text \<open>
  \<open>generate\<close> of \<open>src/generate.ts\<close> up to the display of the parsed response. Its
  inputs: the working directory, the prompt names, the shell, the answer to the
  ticket question (\<open>None\<close> when cancelled) and the messages the service streams back.
  The prompt text is not modelled: the service is outside the program.
\<close>

record env =
  env_cwd :: jsstring
  env_prompts :: "jsstring list"
  env_shell :: shell
  env_ticket :: "jsstring option"
  env_stream :: "message list"

definition not_detected :: "jsstring list \<Rightarrow> jsstring" where
  "not_detected available =
     (if available \<noteq> []
      then js ''Could not detect project. Available prompts: '' @ join (js '', '') available
      else js ''No prompt files found in src/prompt/. Add a <name>.md file.'')"

definition generate :: "env \<Rightarrow> outcome" where
  "generate e =
     (case detectCompany (env_cwd e) (env_prompts e) of
        None \<Rightarrow> Exit 1 (not_detected (env_prompts e))
      | Some company \<Rightarrow>
          if \<not> truthy company then Exit 1 (not_detected (env_prompts e))
          else
            (case getGitDiff (env_shell e) of
               Inl err \<Rightarrow> Threw
             | Inr diff \<Rightarrow>
                 (case getChangedFiles (env_shell e) of
                    Inl err \<Rightarrow> Threw
                  | Inr changedFiles \<Rightarrow>
                      if \<not> truthy (trim diff) \<and> \<not> truthy (trim changedFiles)
                      then Exit 1 (js ''No git changes detected. Stage or modify files first.'')
                      else
                        (case env_ticket e of
                           None \<Rightarrow> Exit 0 (js ''Cancelled.'')
                         | Some ticket \<Rightarrow> respond (env_stream e)))))"


section \<open>The streaming variant: the thinking queue\<close>

text \<open>
  One variant of \<open>generate\<close> hands the thinking text to the terminal through an
  async iterable while \<open>consumeStream\<close> keeps reading the service's stream. Producer
  and consumer run on one thread and share \<open>thinkingQueue\<close>, \<open>thinkingDone\<close> and
  \<open>thinkingResolve\<close>; each of \<open>pushThinking\<close>, \<open>endThinking\<close> and \<open>next\<close> runs
  without interruption, so a run is a sequence of such steps.

  \<open>thinkingResolve\<close> holds the resolver of the promise that \<open>next\<close> returned when
  it found nothing to deliver; here it is the flag that such a promise is pending.
  \<open>received\<close> records the iterator results handed to the consumer, in order.
  The consumer is the \<open>for await\<close> loop of the terminal library: it calls \<open>next\<close>
  only when its previous promise is settled and the iterator has not reported done.
\<close>

datatype IteratorResult = IterValue jsstring | IterDone

record session =
  responseText :: jsstring
  thinkingResolve :: bool
  thinkingQueue :: "jsstring list"
  thinkingDone :: bool
  thinkingStarted :: bool
  streamDone :: bool
  streamError :: "jsstring option"
  received :: "IteratorResult list"

definition session0 :: session where
  "session0 = \<lparr> responseText = [], thinkingResolve = False, thinkingQueue = [],
                 thinkingDone = False, thinkingStarted = False, streamDone = False,
                 streamError = None, received = [] \<rparr>"

definition pushThinking :: "jsstring \<Rightarrow> session \<Rightarrow> session" where
  "pushThinking chunk st =
     (if thinkingResolve st
      then st\<lparr> thinkingResolve := False, received := received st @ [IterValue chunk] \<rparr>
      else st\<lparr> thinkingQueue := thinkingQueue st @ [chunk] \<rparr>)"

definition endThinking :: "session \<Rightarrow> session" where
  "endThinking st =
     (let st' = st\<lparr> thinkingDone := True \<rparr>
      in if thinkingResolve st'
         then st'\<lparr> thinkingResolve := False, received := received st' @ [IterDone] \<rparr>
         else st')"

text \<open>\<open>thinkingIterable\<close>'s \<open>next\<close>.\<close>

definition thinkingNext :: "session \<Rightarrow> session" where
  "thinkingNext st =
     (case thinkingQueue st of
        chunk # queue \<Rightarrow> st\<lparr> thinkingQueue := queue, received := received st @ [IterValue chunk] \<rparr>
      | [] \<Rightarrow>
          if thinkingDone st then st\<lparr> received := received st @ [IterDone] \<rparr>
          else st\<lparr> thinkingResolve := True \<rparr>)"

definition finished :: "session \<Rightarrow> bool" where
  "finished st \<longleftrightarrow> IterDone \<in> set (received st)"

text \<open>One turn of the consumer: it calls \<open>next\<close> if it is neither waiting nor done.\<close>

definition poll :: "session \<Rightarrow> session" where
  "poll st = (if thinkingResolve st \<or> finished st then st else thinkingNext st)"

text \<open>The queue on its own: any sequence of pushes, ends and consumer turns.\<close>

datatype action = Push jsstring | End | Poll

fun act :: "action \<Rightarrow> session \<Rightarrow> session" where
  "act (Push chunk) st = pushThinking chunk st"
| "act End st = endThinking st"
| "act Poll st = poll st"

fun run :: "action list \<Rightarrow> session \<Rightarrow> session" where
  "run [] st = st"
| "run (a # as) st = run as (act a st)"

text \<open>
  The consumer left alone, after the producer has stopped: it polls until the
  iterator reports done. If it is left waiting for a promise, nobody settles it.
\<close>

function drain :: "session \<Rightarrow> session option" where
  "drain st =
     (if finished st then Some st
      else if thinkingResolve st then None
      else drain (thinkingNext st))"
  by pat_completeness auto
termination
  by (relation "measure (\<lambda>st. if finished st \<or> thinkingResolve st then 0
                               else 2 + length (thinkingQueue st))")
     (auto simp: thinkingNext_def finished_def split: list.splits)

declare drain.simps [simp del]

text \<open>
  \<open>consumeStream\<close>. A schedule is the stream's messages in order with the
  consumer's turns between them. After the loop (a result message breaks it, the
  messages behind it are never read) the thinking stream is ended if it is not yet,
  and \<open>streamDone\<close> is set; consumer turns go on.
\<close>

datatype step = Msg message | Turn

fun on_event :: "event \<Rightarrow> session \<Rightarrow> session" where
  "on_event (ContentBlockDelta (ThinkingDelta t)) st =
     pushThinking t (if \<not> thinkingStarted st then st\<lparr> thinkingStarted := True \<rparr> else st)"
| "on_event (ContentBlockDelta (TextDelta t)) st = st\<lparr> responseText := responseText st @ t \<rparr>"
| "on_event (ContentBlockDelta OtherDelta) st = st"
| "on_event ContentBlockStop st =
     (if thinkingStarted st \<and> \<not> thinkingDone st then endThinking st else st)"
| "on_event OtherEvent st = st"

definition after_loop :: "session \<Rightarrow> session" where
  "after_loop st = (if \<not> thinkingDone st then endThinking st else st)\<lparr> streamDone := True \<rparr>"

fun turns :: "step list \<Rightarrow> session \<Rightarrow> session" where
  "turns [] st = st"
| "turns (Turn # sch) st = turns sch (poll st)"
| "turns (Msg m # sch) st = turns sch st"

fun consumeStream :: "step list \<Rightarrow> session \<Rightarrow> session" where
  "consumeStream [] st = after_loop st"
| "consumeStream (Turn # sch) st = consumeStream sch (poll st)"
| "consumeStream (Msg (StreamEvent ev) # sch) st = consumeStream sch (on_event ev st)"
| "consumeStream (Msg (Result subtype) # sch) st =
     turns sch (after_loop (if subtype \<noteq> success then st\<lparr> streamError := Some subtype \<rparr> else st))"
| "consumeStream (Msg OtherMessage # sch) st = consumeStream sch st"

fun messages :: "step list \<Rightarrow> message list" where
  "messages [] = []"
| "messages (Msg m # sch) = m # messages sch"
| "messages (Turn # sch) = messages sch"

text \<open>
  The streaming \<open>generate\<close> from the loop to the display: the stream is consumed, the
  terminal's loop runs to its end, then \<open>streamError\<close> and the empty answer are
  checked. \<open>if (streamError)\<close> is a truth test: \<open>null\<close> and the empty string pass.
\<close>

definition respond_stream :: "step list \<Rightarrow> outcome" where
  "respond_stream sch =
     (case drain (consumeStream sch session0) of
        None \<Rightarrow> Hang
      | Some st \<Rightarrow>
          (case streamError st of
             Some subtype \<Rightarrow>
               if truthy subtype then Exit 1 (js ''Generation failed: '' @ subtype)
               else if \<not> truthy (trim (responseText st))
               then Exit 1 (js ''Empty response from Claude.'')
               else Shown (parseResponse (responseText st))
           | None \<Rightarrow>
               if \<not> truthy (trim (responseText st))
               then Exit 1 (js ''Empty response from Claude.'')
               else Shown (parseResponse (responseText st))))"

text \<open>What a schedule of queue actions pushed, and what the consumer was handed.\<close>

fun pushed :: "action list \<Rightarrow> jsstring list" where
  "pushed [] = []"
| "pushed (Push chunk # as) = chunk # pushed as"
| "pushed (a # as) = pushed as"

fun pushed_before_end :: "action list \<Rightarrow> jsstring list" where
  "pushed_before_end [] = []"
| "pushed_before_end (Push chunk # as) = chunk # pushed_before_end as"
| "pushed_before_end (End # as) = []"
| "pushed_before_end (Poll # as) = pushed_before_end as"

fun chunks :: "IteratorResult list \<Rightarrow> jsstring list" where
  "chunks [] = []"
| "chunks (IterValue chunk # rs) = chunk # chunks rs"
| "chunks (IterDone # rs) = chunks rs"

text \<open>The payloads of the text deltas, in emission order.\<close>

fun answers :: "delta list \<Rightarrow> jsstring list" where
  "answers [] = []"
| "answers (TextDelta t # ds) = t # answers ds"
| "answers (d # ds) = answers ds"

fun answerDeltas :: "message list \<Rightarrow> jsstring list" where
  "answerDeltas [] = []"
| "answerDeltas (StreamEvent (ContentBlockDelta (TextDelta t)) # ms) = t # answerDeltas ms"
| "answerDeltas (m # ms) = answerDeltas ms"

definition deltas :: "delta list \<Rightarrow> message list" where
  "deltas ds = map (\<lambda>d. StreamEvent (ContentBlockDelta d)) ds"


section \<open>Invariants and sample inputs\<close>

text \<open>The invariant of the queue along any run from the initial state.\<close>

definition queue_inv :: "action list \<Rightarrow> session \<Rightarrow> bool" where
  "queue_inv sch st \<longleftrightarrow>
     chunks (received st) @ thinkingQueue st = pushed sch \<and>
     (finished st \<longrightarrow> prefix (pushed_before_end sch) (chunks (received st))) \<and>
     (thinkingDone st \<longleftrightarrow> End \<in> set sch) \<and>
     (thinkingResolve st \<longrightarrow> thinkingQueue st = [] \<and> \<not> thinkingDone st) \<and>
     (finished st \<longrightarrow> thinkingDone st \<and> \<not> thinkingResolve st) \<and>
     IterDone \<notin> set (butlast (received st))"

text \<open>What every state of \<open>consumeStream\<close> satisfies.\<close>

definition settled :: "session \<Rightarrow> bool" where
  "settled st \<longleftrightarrow> (thinkingDone st \<longrightarrow> \<not> thinkingResolve st) \<and>
     IterDone \<notin> set (butlast (received st)) \<and>
     (finished st \<longrightarrow> thinkingDone st)"

text \<open>
  Two shells: one whose staged diff is a lone line feed, one with a staged diff;
  and a run started in \<open>/home/u/work/acme\<close> with the prompts \<open>acme\<close> and \<open>other\<close>.
\<close>

fun shell_blank_staged :: shell where
  "shell_blank_staged GitDiffCached = Inr (js ''\<newline>'')"
| "shell_blank_staged GitDiff = Inr (js ''diff --git a/f b/f'')"
| "shell_blank_staged GitStatusShort = Inr (js '' M f'')"

fun shell_staged :: shell where
  "shell_staged GitDiffCached = Inr (js ''diff --git a/g b/g'')"
| "shell_staged GitDiff = Inr (js ''diff --git a/f b/f'')"
| "shell_staged GitStatusShort = Inr (js ''M  g'')"

definition env_acme :: env where
  "env_acme = \<lparr> env_cwd = js ''/home/u/work/acme'', env_prompts = [js ''acme'', js ''other''],
                env_shell = shell_staged, env_ticket = Some [], env_stream = [] \<rparr>"


section \<open>The parser: evaluation\<close>

lemmas parse_eval =
  parseResponse_def commit_re_def prTitle_re_def prBody_re_def COMMIT_MESSAGE_def
  PR_TITLE_def PR_BODY_def LF_def js_def trim_def trimStart_def trimEnd_def
  isWhiteSpace_def Let_def

text \<open>\<open>trim\<close> gives the empty string exactly on white space.\<close>

lemma trim_Nil_iff: "trim s = [] \<longleftrightarrow> (\<forall>c\<in>set s. isWhiteSpace c)"
proof
  assume "trim s = []"
  then have all: "\<forall>c\<in>set (dropWhile isWhiteSpace s). isWhiteSpace c"
    by (simp add: trim_def trimStart_def trimEnd_def dropWhile_eq_Nil_conv)
  have "dropWhile isWhiteSpace s = []"
  proof (rule ccontr)
    assume ne: "dropWhile isWhiteSpace s \<noteq> []"
    then have "\<not> isWhiteSpace (hd (dropWhile isWhiteSpace s))" by (rule hd_dropWhile)
    moreover from ne have "hd (dropWhile isWhiteSpace s) \<in> set (dropWhile isWhiteSpace s)"
      by (rule hd_in_set)
    ultimately show False using all by blast
  qed
  then show "\<forall>c\<in>set s. isWhiteSpace c" by (simp add: dropWhile_eq_Nil_conv)
next
  assume "\<forall>c\<in>set s. isWhiteSpace c"
  then show "trim s = []"
    by (auto simp: trim_def trimStart_def trimEnd_def dropWhile_eq_Nil_conv dest: set_dropWhileD)
qed

subsection \<open>Facts about the matcher\<close>

lemma literal_Some_iff: "literal p s = Some r \<longleftrightarrow> s = p @ r"
  by (induction p s rule: literal.induct) auto

lemma literal_None_iff: "literal p s = None \<longleftrightarrow> \<not> prefix p s"
proof -
  have "literal p s \<noteq> None \<longleftrightarrow> (\<exists>r. literal p s = Some r)" by auto
  also have "\<dots> \<longleftrightarrow> prefix p s" by (auto simp: literal_Some_iff prefix_def)
  finally show ?thesis by blast
qed

lemma lazy_until_None_iff: "lazy_until la s = None \<longleftrightarrow> \<not> sublist la s"
  by (induction la s rule: lazy_until.induct) (auto simp: sublist_Cons_right)

lemma lazy_until_Some_split: "lazy_until la s = Some g \<Longrightarrow> \<exists>rest. s = g @ la @ rest"
proof (induction la s arbitrary: g rule: lazy_until.induct)
  case (1 la)
  then show ?case by (auto split: if_splits)
next
  case (2 la c cs)
  then show ?case by (auto split: if_splits simp: prefix_def) 
qed

lemma not_prefix_before_first:
  assumes "p \<noteq> []" "\<not> sublist p ((c # pre) @ butlast p)"
  shows "\<not> prefix p ((c # pre) @ p @ rest)"
proof
  assume pre: "prefix p ((c # pre) @ p @ rest)"
  have eq: "(c # pre) @ p @ rest = ((c # pre) @ butlast p) @ (last p # rest)"
    using assms(1) by (simp add: append_butlast_last_id[symmetric] del: append_butlast_last_id)
  from pre consider "prefix p ((c # pre) @ butlast p)"
    | us where "p = ((c # pre) @ butlast p) @ us"
    unfolding eq prefix_append by blast
  then have "prefix p ((c # pre) @ butlast p)"
  proof cases
    case 1
    then show ?thesis .
  next
    case 2
    then have "length p = length (((c # pre) @ butlast p) @ us)" by simp
    then have "length p = Suc (length pre) + (length p - 1) + length us" by simp
    moreover from assms(1) have "0 < length p" by simp
    ultimately have "us = []" by simp
    with 2 show ?thesis by simp
  qed
  with assms(2) show False by auto
qed

lemma lazy_until_first:
  "\<not> sublist la (g @ butlast la) \<Longrightarrow> la \<noteq> [] \<Longrightarrow> lazy_until la (g @ la @ rest) = Some g"
proof (induction g)
  case Nil
  then show ?case by (cases la) auto
next
  case (Cons c g)
  from Cons.prems have np: "\<not> prefix la (c # g @ la @ rest)"
    using not_prefix_before_first[of la c g rest] by simp
  from Cons.prems have "\<not> sublist la (g @ butlast la)"
    by (auto simp: sublist_Cons_right)
  with Cons.IH Cons.prems np show ?case by simp
qed

lemma match_first_hit: "m s = Some g \<Longrightarrow> match_first m s = Some g"
  by (cases s) auto

lemma match_first_None_iff: "match_first m s = None \<longleftrightarrow> (\<forall>t. suffix t s \<longrightarrow> m t = None)"
  by (induction s) (auto simp: suffix_Cons split: option.splits)

lemma match_first_absent:
  assumes "\<And>t. m t \<noteq> None \<Longrightarrow> prefix p t" "\<not> sublist p s"
  shows "match_first m s = None"
proof -
  have "m t = None" if "suffix t s" for t
  proof (rule ccontr)
    assume "m t \<noteq> None"
    then have "prefix p t" by (rule assms(1))
    with that have "sublist p s" by (auto simp: sublist_altdef')
    with assms(2) show False by simp
  qed
  then show ?thesis by (simp add: match_first_None_iff)
qed

lemma match_first_skip:
  assumes m: "\<And>t. m t \<noteq> None \<Longrightarrow> prefix p t" and p: "p \<noteq> []"
  shows "\<not> sublist p (pre @ butlast p) \<Longrightarrow> match_first m (pre @ p @ rest) = match_first m (p @ rest)"
proof (induction pre)
  case Nil
  then show ?case by simp
next
  case (Cons c pre)
  from Cons.prems p have "\<not> prefix p (c # pre @ p @ rest)"
    using not_prefix_before_first[of p c pre rest] by simp
  with m have "m (c # pre @ p @ rest) = None" by blast
  moreover from Cons.prems have "\<not> sublist p (pre @ butlast p)"
    by (auto simp: sublist_Cons_right)
  ultimately show ?case using Cons.IH by simp
qed

lemma commit_re_prefix: "commit_re t \<noteq> None \<Longrightarrow> prefix (COMMIT_MESSAGE @ LF) t"
  by (auto simp: commit_re_def literal_Some_iff split: option.splits)

lemma prTitle_re_prefix: "prTitle_re t \<noteq> None \<Longrightarrow> prefix (PR_TITLE @ LF) t"
  by (auto simp: prTitle_re_def literal_Some_iff split: option.splits)

lemma prBody_re_prefix: "prBody_re t \<noteq> None \<Longrightarrow> prefix (PR_BODY @ LF) t"
  by (auto simp: prBody_re_def literal_Some_iff split: option.splits)

lemma sublist_marker_LF: "\<not> sublist m s \<Longrightarrow> \<not> sublist (m @ LF) s"
  by (auto simp: sublist_def)

lemma LF_not_Nil: "LF \<noteq> []" "butlast (m @ LF) = m" "butlast (a @ m @ LF) = a @ m"
  by (simp_all add: LF_def butlast_append)

lemma prBody_match_first:
  assumes "\<not> sublist (PR_BODY @ LF) (pre @ PR_BODY)"
  shows "match_first prBody_re (pre @ PR_BODY @ LF @ rest) = Some rest"
proof -
  have "match_first prBody_re (pre @ (PR_BODY @ LF) @ rest) = match_first prBody_re ((PR_BODY @ LF) @ rest)"
    using assms by (intro match_first_skip prBody_re_prefix) (simp_all add: LF_not_Nil)
  also have "\<dots> = Some rest"
    by (rule match_first_hit) (simp add: prBody_re_def literal_Some_iff)
  finally show ?thesis by simp
qed

lemma prTitle_match_first:
  assumes "\<not> sublist (PR_TITLE @ LF) (pre @ PR_TITLE)"
    and "\<not> sublist (LF @ PR_BODY @ LF) (g @ LF @ PR_BODY)"
  shows "match_first prTitle_re (pre @ PR_TITLE @ LF @ g @ LF @ PR_BODY @ LF @ rest) = Some g"
proof -
  let ?tail = "g @ (LF @ PR_BODY @ LF) @ rest"
  have "match_first prTitle_re (pre @ (PR_TITLE @ LF) @ ?tail) = match_first prTitle_re ((PR_TITLE @ LF) @ ?tail)"
    using assms(1) by (intro match_first_skip prTitle_re_prefix) (simp_all add: LF_not_Nil)
  also have "\<dots> = Some g"
  proof (rule match_first_hit)
    have "literal (PR_TITLE @ LF) ((PR_TITLE @ LF) @ ?tail) = Some ?tail"
      by (simp only: literal_Some_iff)
    moreover have "lazy_until (LF @ PR_BODY @ LF) ?tail = Some g"
      using assms(2) LF_not_Nil by (intro lazy_until_first) simp_all
    ultimately show "prTitle_re ((PR_TITLE @ LF) @ ?tail) = Some g"
      by (simp only: prTitle_re_def option.case)
  qed
  finally show ?thesis by simp
qed

lemma commit_match_first:
  assumes "\<not> sublist (COMMIT_MESSAGE @ LF) (pre @ COMMIT_MESSAGE)"
    and "\<not> sublist (LF @ PR_TITLE @ LF) (g @ LF @ PR_TITLE)"
  shows "match_first commit_re (pre @ COMMIT_MESSAGE @ LF @ g @ LF @ PR_TITLE @ LF @ rest) = Some g"
proof -
  let ?tail = "g @ (LF @ PR_TITLE @ LF) @ rest"
  have "match_first commit_re (pre @ (COMMIT_MESSAGE @ LF) @ ?tail) = match_first commit_re ((COMMIT_MESSAGE @ LF) @ ?tail)"
    using assms(1) by (intro match_first_skip commit_re_prefix) (simp_all add: LF_not_Nil)
  also have "\<dots> = Some g"
  proof (rule match_first_hit)
    have "literal (COMMIT_MESSAGE @ LF) ((COMMIT_MESSAGE @ LF) @ ?tail) = Some ?tail"
      by (simp only: literal_Some_iff)
    moreover have "lazy_until (LF @ PR_TITLE @ LF) ?tail = Some g"
      using assms(2) LF_not_Nil by (intro lazy_until_first) simp_all
    ultimately show "commit_re ((COMMIT_MESSAGE @ LF) @ ?tail) = Some g"
      by (simp only: commit_re_def option.case)
  qed
  finally show ?thesis by simp
qed

lemma lookahead_occurs:
  assumes "\<And>t. m t \<noteq> None \<Longrightarrow> sublist la t" "match_first m text \<noteq> None"
  shows "sublist la text"
proof -
  from assms(2) obtain t where "suffix t text" "m t \<noteq> None"
    by (auto simp: match_first_None_iff)
  with assms(1) have "sublist la t" by blast
  with \<open>suffix t text\<close> show ?thesis
    by (meson sublist_order.order.trans suffix_imp_sublist)
qed

lemma sublist_after: "sublist la rest \<Longrightarrow> sublist la (p @ rest)"
  by (auto simp: sublist_def) (metis append.assoc)

lemma lazy_until_Some_sublist: "lazy_until la s = Some g \<Longrightarrow> sublist la s"
  using lazy_until_None_iff[of la s] by simp

lemma commit_re_lookahead:
  assumes "commit_re t \<noteq> None"
  shows "sublist (LF @ PR_TITLE @ LF) t"
proof -
  from assms obtain rest g where t: "t = (COMMIT_MESSAGE @ LF) @ rest"
    and "lazy_until (LF @ PR_TITLE @ LF) rest = Some g"
    by (auto simp: commit_re_def literal_Some_iff split: option.splits)
  then have "sublist (LF @ PR_TITLE @ LF) rest" by (intro lazy_until_Some_sublist)
  then show ?thesis unfolding t by (rule sublist_after)
qed

lemma prTitle_re_lookahead:
  assumes "prTitle_re t \<noteq> None"
  shows "sublist (LF @ PR_BODY @ LF) t"
proof -
  from assms obtain rest g where t: "t = (PR_TITLE @ LF) @ rest"
    and "lazy_until (LF @ PR_BODY @ LF) rest = Some g"
    by (auto simp: prTitle_re_def literal_Some_iff split: option.splits)
  then have "sublist (LF @ PR_BODY @ LF) rest" by (intro lazy_until_Some_sublist)
  then show ?thesis unfolding t by (rule sublist_after)
qed

subsection \<open>Where a marker is recognised\<close>

text \<open>
  C8, as the code has it. A marker is recognised by its exact code units followed by
  a line feed, at the leftmost place where they occur, and that place need not start
  a line: whatever \<open>pre\<close> stands before the first \<open>COMMIT_MESSAGE\<close>, \<open>PR_TITLE\<close> or
  \<open>PR_BODY\<close> followed by a line feed, the section opens there. Only the marker that
  closes the commit message or the title (\<open>PR_TITLE\<close>, \<open>PR_BODY\<close>) must stand on a
  line of its own. Conversely, a field that is not its fallback value means that
  the exact marker (upper case, with its line feed) and the closing marker occur in
  the text.
\<close>

theorem parseResponse_marker_anywhere:
  "(\<not> sublist (COMMIT_MESSAGE @ LF) (pre @ COMMIT_MESSAGE) \<and>
    \<not> sublist (LF @ PR_TITLE @ LF) (g @ LF @ PR_TITLE) \<longrightarrow>
      commitMessage (parseResponse (pre @ COMMIT_MESSAGE @ LF @ g @ LF @ PR_TITLE @ LF @ rest)) = trim g) \<and>
   (\<not> sublist (PR_TITLE @ LF) (pre @ PR_TITLE) \<and>
    \<not> sublist (LF @ PR_BODY @ LF) (g @ LF @ PR_BODY) \<longrightarrow>
      prTitle (parseResponse (pre @ PR_TITLE @ LF @ g @ LF @ PR_BODY @ LF @ rest)) = trim g) \<and>
   (\<not> sublist (PR_BODY @ LF) (pre @ PR_BODY) \<longrightarrow>
      prBody (parseResponse (pre @ PR_BODY @ LF @ rest)) = trim rest) \<and>
   (commitMessage (parseResponse text) \<noteq> text \<longrightarrow>
      sublist (COMMIT_MESSAGE @ LF) text \<and> sublist (LF @ PR_TITLE @ LF) text) \<and>
   (prTitle (parseResponse text) \<noteq> [] \<longrightarrow>
      sublist (PR_TITLE @ LF) text \<and> sublist (LF @ PR_BODY @ LF) text) \<and>
   (prBody (parseResponse text) \<noteq> [] \<longrightarrow> sublist (PR_BODY @ LF) text)"
proof (intro conjI impI)
  assume "\<not> sublist (COMMIT_MESSAGE @ LF) (pre @ COMMIT_MESSAGE) \<and>
    \<not> sublist (LF @ PR_TITLE @ LF) (g @ LF @ PR_TITLE)"
  then show "commitMessage (parseResponse (pre @ COMMIT_MESSAGE @ LF @ g @ LF @ PR_TITLE @ LF @ rest)) = trim g"
    by (simp add: parseResponse_def commit_match_first)
next
  assume "\<not> sublist (PR_TITLE @ LF) (pre @ PR_TITLE) \<and>
    \<not> sublist (LF @ PR_BODY @ LF) (g @ LF @ PR_BODY)"
  then show "prTitle (parseResponse (pre @ PR_TITLE @ LF @ g @ LF @ PR_BODY @ LF @ rest)) = trim g"
    by (simp add: parseResponse_def prTitle_match_first)
next
  assume "\<not> sublist (PR_BODY @ LF) (pre @ PR_BODY)"
  then show "prBody (parseResponse (pre @ PR_BODY @ LF @ rest)) = trim rest"
    by (simp add: parseResponse_def prBody_match_first)
next
  assume a: "commitMessage (parseResponse text) \<noteq> text"
  then have m: "match_first commit_re text \<noteq> None"
    by (auto simp: parseResponse_def split: option.splits)
  show "sublist (COMMIT_MESSAGE @ LF) text"
    using commit_re_prefix[THEN prefix_imp_sublist] m by (rule lookahead_occurs)
  show "sublist (LF @ PR_TITLE @ LF) text"
    using commit_re_lookahead m by (rule lookahead_occurs)
next
  assume a: "prTitle (parseResponse text) \<noteq> []"
  then have m: "match_first prTitle_re text \<noteq> None"
    by (auto simp: parseResponse_def split: option.splits)
  show "sublist (PR_TITLE @ LF) text"
    using prTitle_re_prefix[THEN prefix_imp_sublist] m by (rule lookahead_occurs)
  show "sublist (LF @ PR_BODY @ LF) text"
    using prTitle_re_lookahead m by (rule lookahead_occurs)
next
  assume a: "prBody (parseResponse text) \<noteq> []"
  then have m: "match_first prBody_re text \<noteq> None"
    by (auto simp: parseResponse_def split: option.splits)
  show "sublist (PR_BODY @ LF) text"
    using prBody_re_prefix[THEN prefix_imp_sublist] m by (rule lookahead_occurs)
qed

text \<open>
  The theorem at work: markers that follow other characters on their line (\<open>see\<close>,
  \<open>and\<close>, \<open>note:\<close>) open their sections.
\<close>

theorem parseResponse_marker_anywhere_witness:
  "\<not> sublist (COMMIT_MESSAGE @ LF) (js ''see '' @ COMMIT_MESSAGE) \<and>
   \<not> sublist (LF @ PR_TITLE @ LF) (js ''A'' @ LF @ PR_TITLE) \<and>
   \<not> sublist (PR_TITLE @ LF) (js ''see '' @ PR_TITLE) \<and>
   \<not> sublist (LF @ PR_BODY @ LF) (js ''A'' @ LF @ PR_BODY) \<and>
   \<not> sublist (PR_BODY @ LF) (js ''see '' @ PR_BODY) \<and>
   commitMessage (parseResponse (js ''see COMMIT_MESSAGE\<newline>A\<newline>PR_TITLE\<newline>C'')) = js ''A'' \<and>
   prTitle (parseResponse (js ''see PR_TITLE\<newline>A\<newline>PR_BODY\<newline>C'')) = js ''A'' \<and>
   prBody (parseResponse (js ''see PR_BODY\<newline>C'')) = js ''C'' \<and>
   commitMessage (parseResponse (js ''COMMIT_MESSAGE\<newline>A\<newline>PR_TITLE\<newline>B\<newline>PR_BODY\<newline>C''))
     \<noteq> js ''COMMIT_MESSAGE\<newline>A\<newline>PR_TITLE\<newline>B\<newline>PR_BODY\<newline>C'' \<and>
   prTitle (parseResponse (js ''COMMIT_MESSAGE\<newline>A\<newline>PR_TITLE\<newline>B\<newline>PR_BODY\<newline>C'')) \<noteq> [] \<and>
   prBody (parseResponse (js ''COMMIT_MESSAGE\<newline>A\<newline>PR_TITLE\<newline>B\<newline>PR_BODY\<newline>C'')) \<noteq> [] \<and>
   sublist (COMMIT_MESSAGE @ LF) (js ''COMMIT_MESSAGE\<newline>A\<newline>PR_TITLE\<newline>B\<newline>PR_BODY\<newline>C'') \<and>
   sublist (LF @ PR_TITLE @ LF) (js ''COMMIT_MESSAGE\<newline>A\<newline>PR_TITLE\<newline>B\<newline>PR_BODY\<newline>C'') \<and>
   sublist (PR_TITLE @ LF) (js ''COMMIT_MESSAGE\<newline>A\<newline>PR_TITLE\<newline>B\<newline>PR_BODY\<newline>C'') \<and>
   sublist (LF @ PR_BODY @ LF) (js ''COMMIT_MESSAGE\<newline>A\<newline>PR_TITLE\<newline>B\<newline>PR_BODY\<newline>C'') \<and>
   sublist (PR_BODY @ LF) (js ''COMMIT_MESSAGE\<newline>A\<newline>PR_TITLE\<newline>B\<newline>PR_BODY\<newline>C'')"
proof -
  let ?t = "js ''COMMIT_MESSAGE\<newline>A\<newline>PR_TITLE\<newline>B\<newline>PR_BODY\<newline>C''"
  have h: "\<not> sublist (COMMIT_MESSAGE @ LF) (js ''see '' @ COMMIT_MESSAGE)"
    "\<not> sublist (LF @ PR_TITLE @ LF) (js ''A'' @ LF @ PR_TITLE)"
    "\<not> sublist (PR_TITLE @ LF) (js ''see '' @ PR_TITLE)"
    "\<not> sublist (LF @ PR_BODY @ LF) (js ''A'' @ LF @ PR_BODY)"
    "\<not> sublist (PR_BODY @ LF) (js ''see '' @ PR_BODY)"
    by (simp_all add: parse_eval sublist_code(3))
  have g: "commitMessage (parseResponse ?t) \<noteq> ?t" "prTitle (parseResponse ?t) \<noteq> []"
    "prBody (parseResponse ?t) \<noteq> []"
    by (simp_all add: parse_eval)
  have e: "trim (js ''A'') = js ''A''" "trim (js ''C'') = js ''C''"
    by (simp_all add: parse_eval)
  have u: "js ''see '' @ COMMIT_MESSAGE @ LF @ js ''A'' @ LF @ PR_TITLE @ LF @ js ''C''
             = js ''see COMMIT_MESSAGE\<newline>A\<newline>PR_TITLE\<newline>C''"
    "js ''see '' @ PR_TITLE @ LF @ js ''A'' @ LF @ PR_BODY @ LF @ js ''C''
             = js ''see PR_TITLE\<newline>A\<newline>PR_BODY\<newline>C''"
    "js ''see '' @ PR_BODY @ LF @ js ''C'' = js ''see PR_BODY\<newline>C''"
    by (simp_all add: COMMIT_MESSAGE_def PR_TITLE_def PR_BODY_def LF_def js_def)
  from h g parseResponse_marker_anywhere[of "js ''see ''" "js ''A''" "js ''C''" ?t]
  show ?thesis unfolding e u by blast
qed

subsection \<open>Missing markers\<close>

text \<open>
  C6, as the code has it. When the text does not contain \<open>COMMIT_MESSAGE\<close>, the
  commit message is the whole input text, unchanged: the fallback is not trimmed.
  When it does not contain \<open>PR_TITLE\<close> (\<open>PR_BODY\<close>), the title (the body) is the
  empty string.
\<close>

theorem parseResponse_fallback:
  "(\<not> sublist COMMIT_MESSAGE text \<longrightarrow> commitMessage (parseResponse text) = text) \<and>
   (\<not> sublist PR_TITLE text \<longrightarrow> prTitle (parseResponse text) = []) \<and>
   (\<not> sublist PR_BODY text \<longrightarrow> prBody (parseResponse text) = [])"
proof (intro conjI impI)
  assume "\<not> sublist COMMIT_MESSAGE text"
  then have "\<not> sublist (COMMIT_MESSAGE @ LF) text" by (rule sublist_marker_LF)
  then have "match_first commit_re text = None"
    using commit_re_prefix by (intro match_first_absent) 
  then show "commitMessage (parseResponse text) = text"
    by (simp add: parseResponse_def)
next
  assume "\<not> sublist PR_TITLE text"
  then have "\<not> sublist (PR_TITLE @ LF) text" by (rule sublist_marker_LF)
  then have "match_first prTitle_re text = None"
    using prTitle_re_prefix by (intro match_first_absent) 
  then show "prTitle (parseResponse text) = []"
    by (simp add: parseResponse_def)
next
  assume "\<not> sublist PR_BODY text"
  then have "\<not> sublist (PR_BODY @ LF) text" by (rule sublist_marker_LF)
  then have "match_first prBody_re text = None"
    using prBody_re_prefix by (intro match_first_absent) 
  then show "prBody (parseResponse text) = []"
    by (simp add: parseResponse_def)
qed

text \<open>The theorem on \<open>"just some text"\<close>, which has no marker.\<close>

theorem parseResponse_fallback_witness:
  "\<not> sublist COMMIT_MESSAGE (js ''just some text'') \<and>
   \<not> sublist PR_TITLE (js ''just some text'') \<and>
   \<not> sublist PR_BODY (js ''just some text'') \<and>
   parseResponse (js ''just some text'') =
     \<lparr> commitMessage = js ''just some text'', prTitle = [], prBody = [] \<rparr>"
proof -
  have h: "\<not> sublist COMMIT_MESSAGE (js ''just some text'')"
    "\<not> sublist PR_TITLE (js ''just some text'')"
    "\<not> sublist PR_BODY (js ''just some text'')"
    by (simp_all add: parse_eval sublist_code(3))
  from h parseResponse_fallback[of "js ''just some text''"]
  have "commitMessage (parseResponse (js ''just some text'')) = js ''just some text''"
    "prTitle (parseResponse (js ''just some text'')) = []"
    "prBody (parseResponse (js ''just some text'')) = []"
    by blast+
  with h show ?thesis by (cases "parseResponse (js ''just some text'')") simp
qed

text \<open>
  The input \<open>" just some text"\<close> has no marker, and its commit message keeps the
  leading space: it is not the trimmed text.
\<close>

theorem parseResponse_fallback_untrimmed:
  "\<not> sublist COMMIT_MESSAGE (js '' just some text'') \<and>
   commitMessage (parseResponse (js '' just some text'')) \<noteq> trim (js '' just some text'')"
  by (simp add: parse_eval sublist_code(3))

subsection \<open>Partial markers\<close>

text \<open>
  C5, as the code has it. On \<open>"COMMIT_MESSAGE\nfix bug\n\nPR_TITLE\nFix bug"\<close> the
  body is empty, and so is the title: the title's expression needs \<open>PR_BODY\<close> on a
  line of its own after the title, and finds none. The commit message is
  \<open>"fix bug"\<close>.
\<close>

theorem parseResponse_partial_markers:
  "parseResponse (js ''COMMIT_MESSAGE\<newline>fix bug\<newline>\<newline>PR_TITLE\<newline>Fix bug'')
   = \<lparr> commitMessage = js ''fix bug'', prTitle = [], prBody = [] \<rparr>"
  by (simp add: parse_eval)

text \<open>The title of that input is not \<open>"Fix bug"\<close>.\<close>

theorem parseResponse_partial_prTitle_empty:
  "prTitle (parseResponse (js ''COMMIT_MESSAGE\<newline>fix bug\<newline>\<newline>PR_TITLE\<newline>Fix bug''))
   \<noteq> js ''Fix bug''"
  by (simp add: parse_eval)

text \<open>
  In \<open>"note: PR_BODY\nC"\<close> the marker occurs only in the middle of a line, and it
  opens the body section all the same.
\<close>

theorem parseResponse_midline_marker:
  "prBody (parseResponse (js ''note: PR_BODY\<newline>C'')) = js ''C''"
  by (simp add: parse_eval)


subsection \<open>The round trip\<close>

lemma trim_snoc_whitespace:
  assumes "isWhiteSpace w"
  shows "trim (s @ [w]) = trim s"
proof (cases "\<forall>c\<in>set s. isWhiteSpace c")
  case True
  with assms have "\<forall>c\<in>set (s @ [w]). isWhiteSpace c" by simp
  then have "trim (s @ [w]) = []" by (simp only: trim_Nil_iff)
  moreover from True have "trim s = []" by (simp only: trim_Nil_iff)
  ultimately show ?thesis by simp
next
  case False
  then obtain x where "x \<in> set s" "\<not> isWhiteSpace x" by blast
  then have "dropWhile isWhiteSpace (s @ [w]) = dropWhile isWhiteSpace s @ [w]"
    by (rule dropWhile_append1)
  with assms show ?thesis
    by (simp add: trim_def trimStart_def trimEnd_def)
qed

lemma trim_LF: "trim (s @ LF) = trim s"
  unfolding LF_def by (rule trim_snoc_whitespace) (simp add: isWhiteSpace_def)

lemma sublist_without_unit:
  assumes "sublist p (x @ u # y)" "u \<notin> set p"
  shows "sublist p x \<or> sublist p y"
proof -
  from assms(1) consider "sublist p x" | "sublist p (u # y)"
    | p1 p2 where "p = p1 @ p2" "suffix p1 x" "prefix p2 (u # y)"
    unfolding sublist_append by blast
  then show ?thesis
  proof cases
    case 1
    then show ?thesis ..
  next
    case 2
    then consider "prefix p (u # y)" | "sublist p y" by (auto simp: sublist_Cons_right)
    then show ?thesis
    proof cases
      case 1
      with assms(2) have "p = []" by (cases p) auto
      then show ?thesis by simp
    next
      case 2
      then show ?thesis ..
    qed
  next
    case 3
    from 3(1,3) assms(2) have "p2 = []" by (cases p2) auto
    with 3 show ?thesis by auto
  qed
qed

lemma sublist_unit_last:
  assumes "sublist (p @ [u]) (d @ y)" "u \<notin> set y"
  shows "sublist (p @ [u]) d"
proof -
  from assms(1) obtain ps ss where eq: "d @ y = (ps @ p @ [u]) @ ss"
    by (auto simp: sublist_def)
  from eq append_eq_append_conv2[of d y "ps @ p @ [u]" ss]
  consider us where "d = (ps @ p @ [u]) @ us" | us where "d @ us = ps @ p @ [u]" "y = us @ ss"
    by blast
  then show ?thesis
  proof cases
    case 1
    then show ?thesis by (auto simp: sublist_def)
  next
    case 2
    show ?thesis
    proof (cases "us = []")
      case True
      with 2 have "d = ps @ (p @ [u])" by simp
      then show ?thesis by (simp only: sublist_append_leftI)
    next
      case False
      from 2(1) have "last (d @ us) = last (ps @ p @ [u])" by simp
      with False have "last us = u" by simp
      with False have "u \<in> set us" using last_in_set[of us] by simp
      with 2(2) assms(2) show ?thesis by simp
    qed
  qed
qed

lemma sublist_part: "sublist (p @ q) s \<Longrightarrow> sublist p s" "sublist (p @ q) s \<Longrightarrow> sublist q s"
  by (auto simp: sublist_def) (metis append.assoc)+

lemma markers_LF_free:
  "0x0A \<notin> set COMMIT_MESSAGE" "0x0A \<notin> set PR_TITLE" "0x0A \<notin> set PR_BODY"
  by (simp_all add: COMMIT_MESSAGE_def PR_TITLE_def PR_BODY_def js_def)

lemma markers_apart:
  "\<not> sublist PR_TITLE COMMIT_MESSAGE" "\<not> sublist PR_BODY COMMIT_MESSAGE"
  "\<not> sublist PR_BODY PR_TITLE" "\<not> sublist PR_TITLE []" "\<not> sublist PR_BODY []"
  by (simp_all add: COMMIT_MESSAGE_def PR_TITLE_def PR_BODY_def js_def sublist_code(3))


lemma marker_not_in_lines:
  assumes "0x0A \<notin> set p" "p \<noteq> []"
  shows "\<not> sublist p x \<Longrightarrow> \<not> sublist p y \<Longrightarrow> \<not> sublist p (x @ LF @ y)"
    and "\<not> sublist p y \<Longrightarrow> \<not> sublist p (LF @ y)"
    and "\<not> sublist p LF"
proof -
  show "\<not> sublist p (x @ LF @ y)" if "\<not> sublist p x" "\<not> sublist p y" for x y
    using that sublist_without_unit[OF _ assms(1), of x y] by (auto simp: LF_def)
  from this[of "[]"] assms(2) show "\<not> sublist p (LF @ y)" if "\<not> sublist p y" for y
    using that by simp
  from this[of "[]"] assms(2) show "\<not> sublist p LF" by simp
qed

lemma no_marker_line_before:
  assumes "0x0A \<notin> set m" "\<not> sublist m x"
  shows "\<not> sublist (q @ m @ LF) (x @ m)"
proof
  assume "sublist (q @ m @ LF) (x @ m)"
  then have "sublist ((q @ m) @ [0x0A]) (x @ m)" by (simp add: LF_def)
  then have "sublist ((q @ m) @ [0x0A]) x" using assms(1) by (rule sublist_unit_last)
  then have "sublist (q @ m) x" by (rule sublist_part(1))
  then have "sublist m x" by (rule sublist_part(2))
  with assms(2) show False by contradiction
qed

text \<open>
  C7. An answer text constructed as the \<open>COMMIT_MESSAGE\<close> line, \<open>a\<close>, a blank line, the
  \<open>PR_TITLE\<close> line, \<open>b\<close>, a blank line, the \<open>PR_BODY\<close> line and \<open>c\<close> parses to exactly
  \<open>{commitMessage: trim a, prTitle: trim b, prBody: trim c}\<close>: each section is
  everything between its marker line and the next marker line (the end of the text
  for the last), with the white space at both ends removed. The contents are any
  strings that do not contain the name of a later marker (\<open>a\<close> neither \<open>PR_TITLE\<close>
  nor \<open>PR_BODY\<close>, \<open>b\<close> not \<open>PR_BODY\<close>); \<open>c\<close> is any string. With \<open>A\<close>, \<open>B\<close> and \<open>C\<close> as
  the contents the result is \<open>{commitMessage: "A", prTitle: "B", prBody: "C"}\<close>.
\<close>

theorem parseResponse_round_trip:
  "\<not> sublist PR_TITLE a \<and> \<not> sublist PR_BODY a \<and> \<not> sublist PR_BODY b \<longrightarrow>
     parseResponse
       (COMMIT_MESSAGE @ LF @ a @ LF @ LF @ PR_TITLE @ LF @ b @ LF @ LF @ PR_BODY @ LF @ c)
     = \<lparr> commitMessage = trim a, prTitle = trim b, prBody = trim c \<rparr>"
proof
  assume h: "\<not> sublist PR_TITLE a \<and> \<not> sublist PR_BODY a \<and> \<not> sublist PR_BODY b"
  let ?t = "COMMIT_MESSAGE @ LF @ a @ LF @ LF @ PR_TITLE @ LF @ b @ LF @ LF @ PR_BODY @ LF @ c"
  have ne: "PR_TITLE \<noteq> []" "PR_BODY \<noteq> []"
    by (simp_all add: PR_TITLE_def PR_BODY_def js_def)
  note title_lines = marker_not_in_lines[OF markers_LF_free(2) ne(1)]
  note body_lines = marker_not_in_lines[OF markers_LF_free(3) ne(2)]
  have c0: "\<not> sublist (COMMIT_MESSAGE @ LF) ([] @ COMMIT_MESSAGE)"
    using sublist_length_le[of "COMMIT_MESSAGE @ LF" COMMIT_MESSAGE] by (auto simp: LF_def)
  have t1: "\<not> sublist PR_TITLE (a @ LF @ LF)"
    using h by (intro title_lines) simp_all
  have c1: "\<not> sublist (LF @ PR_TITLE @ LF) ((a @ LF) @ LF @ PR_TITLE)"
    using no_marker_line_before[OF markers_LF_free(2) t1, of LF] by simp
  have t2: "\<not> sublist PR_TITLE (COMMIT_MESSAGE @ LF @ a @ LF @ LF)"
    using h by (intro title_lines markers_apart) simp_all
  have c2: "\<not> sublist (PR_TITLE @ LF) ((COMMIT_MESSAGE @ LF @ a @ LF @ LF) @ PR_TITLE)"
    using no_marker_line_before[OF markers_LF_free(2) t2, of "[]"] by simp
  have b1: "\<not> sublist PR_BODY (b @ LF @ LF)"
    using h by (intro body_lines) simp_all
  have c3: "\<not> sublist (LF @ PR_BODY @ LF) ((b @ LF) @ LF @ PR_BODY)"
    using no_marker_line_before[OF markers_LF_free(3) b1, of LF] by simp
  have b2: "\<not> sublist PR_BODY
      (COMMIT_MESSAGE @ LF @ a @ LF @ LF @ PR_TITLE @ LF @ b @ LF @ LF)"
    using h by (intro body_lines markers_apart) simp_all
  have c4: "\<not> sublist (PR_BODY @ LF)
      ((COMMIT_MESSAGE @ LF @ a @ LF @ LF @ PR_TITLE @ LF @ b @ LF @ LF) @ PR_BODY)"
    using no_marker_line_before[OF markers_LF_free(3) b2, of "[]"] by simp
  have m1: "match_first commit_re ?t = Some (a @ LF)"
    using commit_match_first[OF c0 c1, of "b @ LF @ LF @ PR_BODY @ LF @ c"] by simp
  have m2: "match_first prTitle_re ?t = Some (b @ LF)"
    using prTitle_match_first[OF c2 c3, of c] by simp
  have m3: "match_first prBody_re ?t = Some c"
    using prBody_match_first[OF c4, of c] by simp
  show "parseResponse ?t = \<lparr> commitMessage = trim a, prTitle = trim b, prBody = trim c \<rparr>"
    unfolding parseResponse_def m1 m2 m3 by (simp add: trim_LF)
qed

text \<open>
  The theorem on the contents \<open>A\<close>, \<open>B\<close>, \<open>C\<close>, and on contents with white space at
  their ends and a body of two lines.
\<close>

theorem parseResponse_round_trip_witness:
  "\<not> sublist PR_TITLE (js ''A'') \<and> \<not> sublist PR_BODY (js ''A'') \<and> \<not> sublist PR_BODY (js ''B'') \<and>
   parseResponse
     (js ''COMMIT_MESSAGE\<newline>A\<newline>\<newline>PR_TITLE\<newline>B\<newline>\<newline>PR_BODY\<newline>C'')
     = \<lparr> commitMessage = js ''A'', prTitle = js ''B'', prBody = js ''C'' \<rparr> \<and>
   \<not> sublist PR_TITLE (js '' fix: a  b '') \<and> \<not> sublist PR_BODY (js '' fix: a  b '') \<and>
   \<not> sublist PR_BODY (js ''\<newline>Fix it'') \<and>
   parseResponse
     (js ''COMMIT_MESSAGE\<newline> fix: a  b \<newline>\<newline>PR_TITLE\<newline>\<newline>Fix it\<newline>\<newline>PR_BODY\<newline>- one\<newline>- two\<newline>'')
     = \<lparr> commitMessage = js ''fix: a  b'', prTitle = js ''Fix it'',
         prBody = js ''- one\<newline>- two'' \<rparr>"
proof -
  have h1: "\<not> sublist PR_TITLE (js ''A'') \<and> \<not> sublist PR_BODY (js ''A'') \<and> \<not> sublist PR_BODY (js ''B'')"
    by (simp add: PR_TITLE_def PR_BODY_def js_def sublist_code(3))
  have h2: "\<not> sublist PR_TITLE (js '' fix: a  b '') \<and> \<not> sublist PR_BODY (js '' fix: a  b '') \<and>
      \<not> sublist PR_BODY (js ''\<newline>Fix it'')"
    by (simp add: PR_TITLE_def PR_BODY_def js_def sublist_code(3))
  have t: "trim (js ''A'') = js ''A''" "trim (js ''B'') = js ''B''" "trim (js ''C'') = js ''C''"
    "trim (js '' fix: a  b '') = js ''fix: a  b''" "trim (js ''\<newline>Fix it'') = js ''Fix it''"
    "trim (js ''- one\<newline>- two\<newline>'') = js ''- one\<newline>- two''"
    by (simp_all add: trim_def trimStart_def trimEnd_def isWhiteSpace_def js_def)
  have u: "COMMIT_MESSAGE @ LF @ js ''A'' @ LF @ LF @ PR_TITLE @ LF @ js ''B'' @ LF @ LF @ PR_BODY @ LF @ js ''C''
      = js ''COMMIT_MESSAGE\<newline>A\<newline>\<newline>PR_TITLE\<newline>B\<newline>\<newline>PR_BODY\<newline>C''"
    "COMMIT_MESSAGE @ LF @ js '' fix: a  b '' @ LF @ LF @ PR_TITLE @ LF @ js ''\<newline>Fix it'' @ LF @ LF
       @ PR_BODY @ LF @ js ''- one\<newline>- two\<newline>''
      = js ''COMMIT_MESSAGE\<newline> fix: a  b \<newline>\<newline>PR_TITLE\<newline>\<newline>Fix it\<newline>\<newline>PR_BODY\<newline>- one\<newline>- two\<newline>''"
    by (simp_all add: COMMIT_MESSAGE_def PR_TITLE_def PR_BODY_def LF_def js_def)
  from h1 parseResponse_round_trip[of "js ''A''" "js ''B''" "js ''C''"]
  have r1: "parseResponse
     (js ''COMMIT_MESSAGE\<newline>A\<newline>\<newline>PR_TITLE\<newline>B\<newline>\<newline>PR_BODY\<newline>C'')
     = \<lparr> commitMessage = js ''A'', prTitle = js ''B'', prBody = js ''C'' \<rparr>"
    unfolding t u by blast
  from h2 parseResponse_round_trip[of "js '' fix: a  b ''" "js ''\<newline>Fix it''" "js ''- one\<newline>- two\<newline>''"]
  have r2: "parseResponse
     (js ''COMMIT_MESSAGE\<newline> fix: a  b \<newline>\<newline>PR_TITLE\<newline>\<newline>Fix it\<newline>\<newline>PR_BODY\<newline>- one\<newline>- two\<newline>'')
     = \<lparr> commitMessage = js ''fix: a  b'', prTitle = js ''Fix it'',
         prBody = js ''- one\<newline>- two'' \<rparr>"
    unfolding t u by blast
  from h1 h2 r1 r2 show ?thesis by blast
qed


section \<open>The generation stream\<close>

subsection \<open>Facts about the generation loop\<close>

lemma forAwait_prefix:
  "\<forall>m\<in>set pre. \<not> isResult m \<Longrightarrow>
     forAwait failed (pre @ ms) acc = forAwait failed ms (acc @ concat (answerDeltas pre))"
  by (induction failed pre acc rule: forAwait.induct) auto

lemma deltas_no_result: "\<forall>m\<in>set (deltas ds). \<not> isResult m"
  by (auto simp: deltas_def)

lemma answerDeltas_deltas: "answerDeltas (deltas ds) = answers ds"
  by (induction ds rule: answers.induct) (auto simp: deltas_def)

lemma answerDeltas_none: "\<forall>m\<in>set pre. \<not> isTextDelta m \<Longrightarrow> answerDeltas pre = []"
  by (induction pre rule: answerDeltas.induct) auto

subsection \<open>Facts about the thinking queue\<close>

lemma finished_append: "finished (st\<lparr> received := received st @ [r] \<rparr>) \<longleftrightarrow> finished st \<or> r = IterDone"
  by (auto simp: finished_def)

lemma chunks_append: "chunks (rs @ rs') = chunks rs @ chunks rs'"
  by (induction rs rule: chunks.induct) auto

lemma run_append: "run (as @ bs) st = run bs (run as st)"
  by (induction as arbitrary: st) auto

lemma pushed_append: "pushed (as @ bs) = pushed as @ pushed bs"
  by (induction as rule: pushed.induct) auto

lemma pushed_before_end_append:
  "pushed_before_end (as @ bs) =
     (if End \<in> set as then pushed_before_end as else pushed_before_end as @ pushed_before_end bs)"
  by (induction as rule: pushed_before_end.induct) auto

lemma pushed_before_end_no_End: "End \<notin> set as \<Longrightarrow> pushed_before_end as = pushed as"
  by (induction as rule: pushed_before_end.induct) auto

lemma pushed_before_end_prefix: "prefix (pushed_before_end as) (pushed as)"
  by (induction as rule: pushed_before_end.induct) auto

lemma queue_inv_init: "queue_inv [] session0"
  by (simp add: queue_inv_def session0_def finished_def)

lemma queue_inv_Push:
  assumes "queue_inv sch st"
  shows "queue_inv (sch @ [Push c]) (pushThinking c st)"
  using assms
  by (auto simp: queue_inv_def pushThinking_def finished_def chunks_append pushed_append
      pushed_before_end_append)

lemma queue_inv_End:
  assumes "queue_inv sch st"
  shows "queue_inv (sch @ [End]) (endThinking st)"
  using assms
  by (auto simp: queue_inv_def endThinking_def finished_def chunks_append pushed_append
      pushed_before_end_append pushed_before_end_no_End Let_def)

lemma queue_inv_Poll:
  assumes "queue_inv sch st"
  shows "queue_inv (sch @ [Poll]) (poll st)"
  using assms pushed_before_end_prefix[of sch]
  by (auto simp: queue_inv_def poll_def thinkingNext_def finished_def chunks_append pushed_append
      pushed_before_end_append split: list.splits)

lemma queue_inv_run: "queue_inv sch (run sch session0)"
proof (induction sch rule: rev_induct)
  case Nil
  then show ?case by (simp add: queue_inv_init)
next
  case (snoc a sch)
  then show ?case
    by (cases a) (simp_all add: run_append queue_inv_Push queue_inv_End queue_inv_Poll)
qed

lemma done_last_shape:
  "IterDone \<notin> set (butlast rs) \<Longrightarrow> IterDone \<in> set rs \<Longrightarrow> rs = map IterValue (chunks rs) @ [IterDone]"
  by (induction rs rule: chunks.induct) (auto split: if_splits)

lemma drain_finished: "finished st \<Longrightarrow> drain st = Some st"
  by (subst drain.simps) simp

lemma drain_done:
  "thinkingDone st \<Longrightarrow> \<not> thinkingResolve st \<Longrightarrow>
   IterDone \<notin> set (butlast (received st)) \<Longrightarrow>
     \<exists>st'. drain st = Some st' \<and> finished st' \<and>
       responseText st' = responseText st \<and> streamError st' = streamError st \<and>
       chunks (received st') =
         (if finished st then chunks (received st) else chunks (received st) @ thinkingQueue st) \<and>
       IterDone \<notin> set (butlast (received st'))"
proof (induction st rule: drain.induct)
  case (1 st)
  show ?case
  proof (cases "finished st")
    case True
    with "1.prems" show ?thesis by (simp add: drain_finished)
  next
    case False
    note nf = this
    from "1.prems" have nr: "\<not> thinkingResolve st" by simp
    have d: "drain st = drain (thinkingNext st)"
      using nf nr by (subst drain.simps) simp
    show ?thesis
    proof (cases "thinkingQueue st")
      case Nil
      with "1.prems" nf have "finished (thinkingNext st)"
        "IterDone \<notin> set (butlast (received (thinkingNext st)))"
        "chunks (received (thinkingNext st)) = chunks (received st)"
        "responseText (thinkingNext st) = responseText st"
        "streamError (thinkingNext st) = streamError st"
        by (simp_all add: thinkingNext_def finished_def chunks_append)
      with d nf Nil show ?thesis
        by (simp add: drain_finished chunks_append)
    next
      case (Cons c q)
      let ?n = "thinkingNext st"
      from Cons "1.prems" nf have n: "thinkingDone ?n" "\<not> thinkingResolve ?n" "\<not> finished ?n"
        "IterDone \<notin> set (butlast (received ?n))"
        "chunks (received ?n) = chunks (received st) @ [c]" "thinkingQueue ?n = q"
        "responseText ?n = responseText st" "streamError ?n = streamError st"
        by (simp_all add: thinkingNext_def finished_def chunks_append)
      from "1.IH"[OF nf nr n(1,2,4)] n d nf Cons show ?thesis by auto
    qed
  qed
qed

subsection \<open>Facts about \<open>consumeStream\<close>\<close>

lemma settled_session0: "settled session0"
  by (simp add: settled_def session0_def finished_def)

lemma settled_poll: "settled st \<Longrightarrow> settled (poll st)"
  by (auto simp: settled_def poll_def thinkingNext_def finished_def chunks_append split: list.splits)

lemma settled_pushThinking: "settled st \<Longrightarrow> settled (pushThinking c st)"
  by (auto simp: settled_def pushThinking_def finished_def chunks_append)

lemma settled_endThinking: "settled st \<Longrightarrow> settled (endThinking st)"
  by (auto simp: settled_def endThinking_def finished_def chunks_append Let_def)

lemma settled_on_event: "settled st \<Longrightarrow> settled (on_event ev st)"
proof (induction ev st rule: on_event.induct)
  case (1 t st)
  then have "settled (if \<not> thinkingStarted st then st\<lparr>thinkingStarted := True\<rparr> else st)"
    by (simp add: settled_def finished_def)
  then show ?case by (simp only: on_event.simps settled_pushThinking)
qed (simp_all add: settled_endThinking, simp add: settled_def finished_def)

lemma poll_fields [simp]:
  "responseText (poll st) = responseText st" "streamError (poll st) = streamError st"
  "thinkingDone (poll st) = thinkingDone st"
  by (simp_all add: poll_def thinkingNext_def split: list.splits)

lemma on_event_streamError [simp]: "streamError (on_event ev st) = streamError st"
  by (induction ev st rule: on_event.induct) (simp_all add: pushThinking_def endThinking_def Let_def)

lemma on_event_responseText:
  "responseText (on_event ev st) = responseText st @ concat (answerDeltas [StreamEvent ev])"
  by (induction ev st rule: on_event.induct) (simp_all add: pushThinking_def endThinking_def Let_def)

lemma after_loop_fields:
  "settled st \<Longrightarrow> settled (after_loop st) \<and> thinkingDone (after_loop st) \<and>
     \<not> thinkingResolve (after_loop st) \<and> responseText (after_loop st) = responseText st \<and>
     streamError (after_loop st) = streamError st"
  by (auto simp: after_loop_def settled_def endThinking_def finished_def chunks_append Let_def)

lemma turns_fields:
  "settled st \<Longrightarrow> thinkingDone st \<Longrightarrow>
     settled (turns sch st) \<and> thinkingDone (turns sch st) \<and>
     responseText (turns sch st) = responseText st \<and> streamError (turns sch st) = streamError st"
  by (induction sch st rule: turns.induct) (simp_all add: settled_poll)

lemma answerDeltas_Cons: "answerDeltas (m # ms) = answerDeltas [m] @ answerDeltas ms"
  by (induction "[m]" arbitrary: m rule: answerDeltas.induct) simp_all

lemma consumeStream_result:
  "messages sch = pre @ Result r # rest \<Longrightarrow> \<forall>m\<in>set pre. \<not> isResult m \<Longrightarrow> settled st \<Longrightarrow>
     settled (consumeStream sch st) \<and> thinkingDone (consumeStream sch st) \<and>
     responseText (consumeStream sch st) = responseText st @ concat (answerDeltas pre) \<and>
     streamError (consumeStream sch st) = (if r \<noteq> success then Some r else streamError st)"
proof (induction sch st arbitrary: pre rule: consumeStream.induct)
  case (1 st)
  then show ?case by simp
next
  case (2 sch st)
  from "2.prems" have "messages sch = pre @ Result r # rest" "settled (poll st)"
    by (simp_all add: settled_poll)
  from "2.IH"[OF this(1) "2.prems"(2) this(2)] show ?case by simp
next
  case (3 ev sch st)
  from "3.prems"(1,2) obtain pre' where pre: "pre = StreamEvent ev # pre'"
    by (cases pre) auto
  from "3.prems" have p: "messages sch = pre' @ Result r # rest" "\<forall>m\<in>set pre'. \<not> isResult m"
    "settled (on_event ev st)"
    unfolding pre by (simp_all add: settled_on_event)
  have a: "answerDeltas pre = answerDeltas [StreamEvent ev] @ answerDeltas pre'"
    unfolding pre by (rule answerDeltas_Cons)
  from "3.IH"[OF p] show ?case
    by (simp only: consumeStream.simps a on_event_responseText on_event_streamError
        concat_append append_assoc)
next
  case (4 subtype sch st)
  from "4.prems"(1,2) have pre: "pre = []"
    by (cases pre) auto
  with "4.prems"(1) have r: "subtype = r" by simp
  let ?st = "if r \<noteq> success then st\<lparr>streamError := Some r\<rparr> else st"
  from "4.prems"(3) have "settled ?st" by (simp add: settled_def finished_def)
  from after_loop_fields[OF this]
  have al: "settled (after_loop ?st)" "thinkingDone (after_loop ?st)"
    "responseText (after_loop ?st) = responseText ?st"
    "streamError (after_loop ?st) = streamError ?st"
    by blast+
  from turns_fields[OF al(1,2), of sch] al(3,4)
  have "settled (turns sch (after_loop ?st))" "thinkingDone (turns sch (after_loop ?st))"
    "responseText (turns sch (after_loop ?st)) = responseText ?st"
    "streamError (turns sch (after_loop ?st)) = streamError ?st"
    by simp_all
  then show ?case unfolding pre r by simp
next
  case (5 sch st)
  from "5.prems"(1,2) obtain pre' where pre: "pre = OtherMessage # pre'"
    by (cases pre) auto
  from "5.prems" have p: "messages sch = pre' @ Result r # rest" "\<forall>m\<in>set pre'. \<not> isResult m"
    unfolding pre by simp_all
  from "5.IH"[OF p "5.prems"(3)] show ?case unfolding pre by simp
qed

lemma session0_fields: "responseText session0 = []" "streamError session0 = None"
  by (simp_all add: session0_def)

lemma consumed_then_drained:
  assumes "messages sch = pre @ Result r # rest" "\<forall>m\<in>set pre. \<not> isResult m"
  shows "\<exists>st. drain (consumeStream sch session0) = Some st \<and>
           responseText st = concat (answerDeltas pre) \<and>
           streamError st = (if r \<noteq> success then Some r else None)"
proof -
  let ?c = "consumeStream sch session0"
  from consumeStream_result[OF assms settled_session0]
  have c: "settled ?c" "thinkingDone ?c" "responseText ?c = concat (answerDeltas pre)"
    "streamError ?c = (if r \<noteq> success then Some r else None)"
    by (simp_all only: session0_fields append_Nil)
  from c(1,2) have s: "\<not> thinkingResolve ?c" "IterDone \<notin> set (butlast (received ?c))"
    unfolding settled_def by blast+
  from drain_done[OF c(2) s] obtain st where "drain ?c = Some st"
    "responseText st = responseText ?c" "streamError st = streamError ?c"
    by blast
  with c(3,4) show ?thesis by (intro exI[of _ st]) (simp only: simp_thms)
qed

subsection \<open>The answer text\<close>

lemma forAwait_result:
  assumes "\<forall>m\<in>set pre. \<not> isResult m"
  shows "forAwait failed (pre @ Result r # rest) [] =
    (if r \<noteq> success then Inl (Exit 1 (failed r)) else Inr (concat (answerDeltas pre)))"
  using forAwait_prefix[OF assms, of failed "Result r # rest" "[]"] by simp

text \<open>
  C1. For every stream that interleaves thinking deltas and text deltas in any
  order (\<open>deltas ds\<close>) and then yields the result message with subtype \<open>success\<close>,
  the answer text is the concatenation of the payloads of the text deltas in the
  order of emission; the thinking deltas add nothing, however many there are. In
  \<open>src/generate.ts\<close> and \<open>index.ts\<close> it is the value of \<open>responseText\<close> when the
  loop breaks. In the streaming variant it holds wherever the consumer's turns fall
  among the messages, and the terminal's loop comes to its end.
\<close>

theorem answer_text_excludes_reasoning:
  "forAwait failed (deltas ds @ Result success # rest) [] = Inr (concat (answers ds)) \<and>
   (messages sch = deltas ds @ Result success # rest \<longrightarrow>
      map_option responseText (drain (consumeStream sch session0)) = Some (concat (answers ds)))"
proof (intro conjI impI)
  show "forAwait failed (deltas ds @ Result success # rest) [] = Inr (concat (answers ds))"
    using forAwait_result[OF deltas_no_result, of failed ds success rest]
    by (simp add: answerDeltas_deltas)
next
  assume "messages sch = deltas ds @ Result success # rest"
  from consumed_then_drained[OF this deltas_no_result]
  show "map_option responseText (drain (consumeStream sch session0)) = Some (concat (answers ds))"
    by (auto simp: answerDeltas_deltas)
qed

text \<open>Evaluation of the queue and the stream on given inputs.\<close>

lemmas stream_eval =
  pushThinking_def endThinking_def poll_def thinkingNext_def finished_def session0_def
  after_loop_def Let_def deltas_def success_def js_def

text \<open>The theorem on a stream of two thinking and two text deltas.\<close>

theorem answer_text_excludes_reasoning_witness:
  "messages [Turn, Msg (StreamEvent (ContentBlockDelta (ThinkingDelta (js ''hm'')))),
             Msg (StreamEvent (ContentBlockDelta (TextDelta (js ''COM'')))), Turn,
             Msg (StreamEvent (ContentBlockDelta (ThinkingDelta (js ''ok'')))),
             Msg (StreamEvent (ContentBlockDelta (TextDelta (js ''MIT'')))),
             Msg (Result success)]
     = deltas [ThinkingDelta (js ''hm''), TextDelta (js ''COM''), ThinkingDelta (js ''ok''),
               TextDelta (js ''MIT'')] @ Result success # [] \<and>
   map_option responseText (drain (consumeStream
            [Turn, Msg (StreamEvent (ContentBlockDelta (ThinkingDelta (js ''hm'')))),
             Msg (StreamEvent (ContentBlockDelta (TextDelta (js ''COM'')))), Turn,
             Msg (StreamEvent (ContentBlockDelta (ThinkingDelta (js ''ok'')))),
             Msg (StreamEvent (ContentBlockDelta (TextDelta (js ''MIT'')))),
             Msg (Result success)] session0)) = Some (js ''COMMIT'')"
proof -
  let ?sch = "[Turn, Msg (StreamEvent (ContentBlockDelta (ThinkingDelta (js ''hm'')))),
             Msg (StreamEvent (ContentBlockDelta (TextDelta (js ''COM'')))), Turn,
             Msg (StreamEvent (ContentBlockDelta (ThinkingDelta (js ''ok'')))),
             Msg (StreamEvent (ContentBlockDelta (TextDelta (js ''MIT'')))),
             Msg (Result success)]"
  let ?ds = "[ThinkingDelta (js ''hm''), TextDelta (js ''COM''), ThinkingDelta (js ''ok''),
               TextDelta (js ''MIT'')]"
  have h: "messages ?sch = deltas ?ds @ Result success # []"
    by (simp add: deltas_def)
  have c: "concat (answers ?ds) = js ''COMMIT''"
    by (simp add: js_def)
  from answer_text_excludes_reasoning[of _ ?ds "[]" ?sch] h
  have "map_option responseText (drain (consumeStream ?sch session0)) = Some (concat (answers ?ds))"
    by blast
  with h show ?thesis unfolding c by blast
qed

subsection \<open>Failure of the generation\<close>



subsection \<open>The empty answer\<close>

lemma marker_lines_differ:
  "js ''Empty response from Claude.'' \<noteq> js ''Failed: '' @ reason"
  "js ''Empty response from Claude.'' \<noteq> js ''Generation failed: '' @ reason"
  by (simp_all add: js_def)

text \<open>
  C3. When the stream ends in the result \<open>success\<close> and no text delta came before
  it, the accumulated answer is empty, and the caller logs
  \<open>Empty response from Claude.\<close> and exits with status 1, in \<open>src/generate.ts\<close>, in
  \<open>index.ts\<close> and in the streaming variant. The logged line differs from the line
  of a failed generation, whatever its reason.
\<close>

theorem empty_success_is_error:
  "(\<forall>m\<in>set pre. \<not> isResult m \<and> \<not> isTextDelta m) \<longrightarrow>
     respond (pre @ Result success # rest) = Exit 1 (js ''Empty response from Claude.'') \<and>
     respond_plain (pre @ Result success # rest) = Exit 1 (js ''Empty response from Claude.'') \<and>
     (messages sch = pre @ Result success # rest \<longrightarrow>
        respond_stream sch = Exit 1 (js ''Empty response from Claude.'')) \<and>
     Exit 1 (js ''Empty response from Claude.'') \<noteq> Exit 1 (js ''Failed: '' @ reason) \<and>
     Exit 1 (js ''Empty response from Claude.'') \<noteq> Exit 1 (js ''Generation failed: '' @ reason)"
proof (intro impI conjI)
  assume a: "\<forall>m\<in>set pre. \<not> isResult m \<and> \<not> isTextDelta m"
  then have pre: "\<forall>m\<in>set pre. \<not> isResult m" and "\<forall>m\<in>set pre. \<not> isTextDelta m" by blast+
  then have none: "answerDeltas pre = []" by (intro answerDeltas_none)
  have t: "\<not> truthy (trim [])" by (simp add: truthy_def trim_Nil_iff)
  show "respond (pre @ Result success # rest) = Exit 1 (js ''Empty response from Claude.'')"
    using t by (simp add: respond_def respond_with_def forAwait_result[OF pre] none)
  show "respond_plain (pre @ Result success # rest) = Exit 1 (js ''Empty response from Claude.'')"
    using t by (simp add: respond_plain_def respond_with_def forAwait_result[OF pre] none)
  show "Exit 1 (js ''Empty response from Claude.'') \<noteq> Exit 1 (js ''Failed: '' @ reason)"
    "Exit 1 (js ''Empty response from Claude.'') \<noteq> Exit 1 (js ''Generation failed: '' @ reason)"
    by (simp_all add: marker_lines_differ)
  assume m: "messages sch = pre @ Result success # rest"
  from consumed_then_drained[OF m pre] none obtain st
    where "drain (consumeStream sch session0) = Some st" "streamError st = None"
      "responseText st = []"
    by auto
  with t show "respond_stream sch = Exit 1 (js ''Empty response from Claude.'')"
    by (simp add: respond_stream_def)
qed

text \<open>The theorem on a thinking delta, a block stop and the result \<open>success\<close>.\<close>

theorem empty_success_is_error_witness:
  "\<not> isResult (StreamEvent (ContentBlockDelta (ThinkingDelta (js ''hm'')))) \<and>
   \<not> isTextDelta (StreamEvent (ContentBlockDelta (ThinkingDelta (js ''hm'')))) \<and>
   \<not> isResult (StreamEvent ContentBlockStop) \<and> \<not> isTextDelta (StreamEvent ContentBlockStop) \<and>
   messages [Msg (StreamEvent (ContentBlockDelta (ThinkingDelta (js ''hm'')))),
             Msg (StreamEvent ContentBlockStop), Msg (Result success)]
     = [StreamEvent (ContentBlockDelta (ThinkingDelta (js ''hm''))), StreamEvent ContentBlockStop]
        @ Result success # [] \<and>
   respond [StreamEvent (ContentBlockDelta (ThinkingDelta (js ''hm''))), StreamEvent ContentBlockStop,
            Result success] = Exit 1 (js ''Empty response from Claude.'') \<and>
   respond_plain [StreamEvent (ContentBlockDelta (ThinkingDelta (js ''hm''))), StreamEvent ContentBlockStop,
            Result success] = Exit 1 (js ''Empty response from Claude.'') \<and>
   respond_stream [Msg (StreamEvent (ContentBlockDelta (ThinkingDelta (js ''hm'')))),
             Msg (StreamEvent ContentBlockStop), Msg (Result success)]
     = Exit 1 (js ''Empty response from Claude.'')"
proof -
  let ?pre = "[StreamEvent (ContentBlockDelta (ThinkingDelta (js ''hm''))), StreamEvent ContentBlockStop]"
  let ?sch = "[Msg (StreamEvent (ContentBlockDelta (ThinkingDelta (js ''hm'')))),
             Msg (StreamEvent ContentBlockStop), Msg (Result success)]"
  have h: "\<forall>m\<in>set ?pre. \<not> isResult m \<and> \<not> isTextDelta m"
    "messages ?sch = ?pre @ Result success # []"
    by simp_all
  from empty_success_is_error[of ?pre "[]" ?sch] h
  have "respond (?pre @ Result success # []) = Exit 1 (js ''Empty response from Claude.'')"
    "respond_plain (?pre @ Result success # []) = Exit 1 (js ''Empty response from Claude.'')"
    "respond_stream ?sch = Exit 1 (js ''Empty response from Claude.'')"
    by blast+
  with h show ?thesis by simp
qed

subsection \<open>Delivery through the thinking queue\<close>

text \<open>
  C4, as the code has it. Along every run of pushes, ends and consumer turns from
  the initial state:
  \<^item> the chunks handed to the consumer, followed by the chunks still queued, are the
    pushed chunks in push order: none is lost from the queue, doubled or moved;
  \<^item> when the iterator has reported done, that report is the last result it gave,
    and every chunk pushed before \<open>endThinking\<close> was handed over before it;
  \<^item> once \<open>endThinking\<close> has run, the consumer's loop comes to its end, and by then
    it has received every chunk pushed before \<open>endThinking\<close>, the queued ones
    included, and only pushed chunks, in push order;
  \<^item> pushes never wait for the consumer: with no consumer turn at all they all
    complete, and the queue holds them.

  Chunks pushed after \<open>endThinking\<close> are outside this statement.
\<close>

theorem thinking_queue_delivery:
  "chunks (received (run sch session0)) @ thinkingQueue (run sch session0) = pushed sch \<and>
   (finished (run sch session0) \<longrightarrow>
      received (run sch session0) = map IterValue (chunks (received (run sch session0))) @ [IterDone] \<and>
      prefix (pushed_before_end sch) (chunks (received (run sch session0)))) \<and>
   (End \<in> set sch \<longrightarrow>
      (\<exists>st. drain (run sch session0) = Some st \<and>
            received st = map IterValue (chunks (received st)) @ [IterDone] \<and>
            prefix (pushed_before_end sch) (chunks (received st)) \<and>
            prefix (chunks (received st)) (pushed sch))) \<and>
   run (map Push cs) session0 = session0\<lparr> thinkingQueue := cs \<rparr>"
proof (intro conjI impI)
  let ?k = "run sch session0"
  have inv: "queue_inv sch ?k" by (rule queue_inv_run)
  then show all: "chunks (received ?k) @ thinkingQueue ?k = pushed sch"
    by (simp add: queue_inv_def)
  {
    assume f: "finished ?k"
    with inv have "IterDone \<notin> set (butlast (received ?k))" "IterDone \<in> set (received ?k)"
      by (simp_all add: queue_inv_def finished_def)
    then show "received ?k = map IterValue (chunks (received ?k)) @ [IterDone]"
      by (rule done_last_shape)
    from f inv show "prefix (pushed_before_end sch) (chunks (received ?k))"
      by (simp add: queue_inv_def)
  }
  {
    assume "End \<in> set sch"
    with inv have d: "thinkingDone ?k" "\<not> thinkingResolve ?k"
      "IterDone \<notin> set (butlast (received ?k))"
      by (auto simp: queue_inv_def)
    from drain_done[OF this] obtain st where st: "drain ?k = Some st" "finished st"
      "chunks (received st) =
         (if finished ?k then chunks (received ?k) else chunks (received ?k) @ thinkingQueue ?k)"
      "IterDone \<notin> set (butlast (received st))"
      by blast
    from st(2,4) have shape: "received st = map IterValue (chunks (received st)) @ [IterDone]"
      by (intro done_last_shape) (simp_all add: finished_def)
    have p1: "prefix (pushed_before_end sch) (chunks (received st))"
    proof (cases "finished ?k")
      case True
      with inv st(3) show ?thesis by (simp add: queue_inv_def)
    next
      case False
      with st(3) all show ?thesis by (simp add: pushed_before_end_prefix)
    qed
    have p2: "prefix (chunks (received st)) (pushed sch)"
    proof (cases "finished ?k")
      case True
      with st(3) all[symmetric] show ?thesis by simp
    next
      case False
      with st(3) all show ?thesis by simp
    qed
    from st(1) shape p1 p2
    show "\<exists>st. drain ?k = Some st \<and>
            received st = map IterValue (chunks (received st)) @ [IterDone] \<and>
            prefix (pushed_before_end sch) (chunks (received st)) \<and>
            prefix (chunks (received st)) (pushed sch)"
      by blast
  }
  have "run (map Push cs) st = st\<lparr> thinkingQueue := thinkingQueue st @ cs \<rparr>"
    if "\<not> thinkingResolve st" for st
    using that by (induction cs arbitrary: st) (simp_all add: pushThinking_def)
  from this[of session0] show "run (map Push cs) session0 = session0\<lparr> thinkingQueue := cs \<rparr>"
    by (simp add: session0_def)
qed

text \<open>The theorem on two chunks, the second still queued when the stream ends.\<close>

theorem thinking_queue_delivery_witness:
  "finished (run [Poll, Push (js ''a''), Push (js ''b''), End, Poll, Poll] session0) \<and>
   End \<in> set [Poll, Push (js ''a''), Push (js ''b''), End, Poll, Poll] \<and>
   received (run [Poll, Push (js ''a''), Push (js ''b''), End, Poll, Poll] session0)
     = [IterValue (js ''a''), IterValue (js ''b''), IterDone] \<and>
   prefix [js ''a'', js ''b'']
     (chunks (received (run [Poll, Push (js ''a''), Push (js ''b''), End, Poll, Poll] session0))) \<and>
   drain (run [Poll, Push (js ''a''), Push (js ''b''), End, Poll, Poll] session0) \<noteq> None"
proof -
  let ?w = "[Poll, Push (js ''a''), Push (js ''b''), End, Poll, Poll]"
  have h: "finished (run ?w session0)" "End \<in> set ?w"
    by (simp_all add: stream_eval)
  have p: "pushed_before_end ?w = [js ''a'', js ''b'']"
    by simp
  have r: "received (run ?w session0) = [IterValue (js ''a''), IterValue (js ''b''), IterDone]"
    by (simp add: stream_eval)
  from thinking_queue_delivery[of ?w] h
  have "prefix (pushed_before_end ?w) (chunks (received (run ?w session0)))"
    "\<exists>st. drain (run ?w session0) = Some st"
    by blast+
  with h r show ?thesis unfolding p by auto
qed

text \<open>
  A chunk pushed after \<open>endThinking\<close> stays in the queue when the consumer, waiting
  at that moment, was told done: \<open>b\<close> is pushed and never delivered. The stream
  reaches this state with a thinking delta after the first block stop.
\<close>

theorem push_after_end_not_delivered:
  "pushed [Poll, Push (js ''a''), Poll, End, Push (js ''b'')] = [js ''a'', js ''b''] \<and>
   drain (run [Poll, Push (js ''a''), Poll, End, Push (js ''b'')] session0)
     = Some (run [Poll, Push (js ''a''), Poll, End, Push (js ''b'')] session0) \<and>
   received (run [Poll, Push (js ''a''), Poll, End, Push (js ''b'')] session0)
     = [IterValue (js ''a''), IterDone] \<and>
   thinkingQueue (run [Poll, Push (js ''a''), Poll, End, Push (js ''b'')] session0) = [js ''b''] \<and>
   received (consumeStream
      [Turn, Msg (StreamEvent (ContentBlockDelta (ThinkingDelta (js ''a'')))), Turn,
       Msg (StreamEvent ContentBlockStop),
       Msg (StreamEvent (ContentBlockDelta (ThinkingDelta (js ''b'')))),
       Msg (Result success)] session0) = [IterValue (js ''a''), IterDone]"
proof -
  let ?w = "[Poll, Push (js ''a''), Poll, End, Push (js ''b'')]"
  have f: "finished (run ?w session0)"
    by (simp add: stream_eval)
  have "pushed ?w = [js ''a'', js ''b'']" by simp
  moreover have "drain (run ?w session0) = Some (run ?w session0)"
    using f by (rule drain_finished)
  moreover have "received (run ?w session0) = [IterValue (js ''a''), IterDone]"
    by (simp add: stream_eval)
  moreover have "thinkingQueue (run ?w session0) = [js ''b'']"
    by (simp add: stream_eval)
  moreover have "received (consumeStream
      [Turn, Msg (StreamEvent (ContentBlockDelta (ThinkingDelta (js ''a'')))), Turn,
       Msg (StreamEvent ContentBlockStop),
       Msg (StreamEvent (ContentBlockDelta (ThinkingDelta (js ''b'')))),
       Msg (Result success)] session0) = [IterValue (js ''a''), IterDone]"
    by (simp add: stream_eval)
  ultimately show ?thesis by (intro conjI)
qed

subsection \<open>The staged and the unstaged diff\<close>

text \<open>
  C9, as the code has it. When \<open>git diff --cached\<close> succeeds, \<open>getGitDiff\<close> returns
  the staged diff whenever it has a code unit that is not white space (it is not
  empty after \<open>trim\<close>), and otherwise what \<open>git diff\<close> gives, the unstaged diff.
\<close>

theorem getGitDiff_staged_unless_blank:
  "sh GitDiffCached = Inr staged \<longrightarrow>
     getGitDiff sh = (if \<exists>c\<in>set staged. \<not> isWhiteSpace c then Inr staged else sh GitDiff)"
  by (auto simp: getGitDiff_def truthy_def trim_Nil_iff split: sum.splits)

text \<open>The theorem on a shell with a staged diff.\<close>

theorem getGitDiff_staged_unless_blank_witness:
  "shell_staged GitDiffCached = Inr (js ''diff --git a/g b/g'') \<and>
   (\<exists>c\<in>set (js ''diff --git a/g b/g''). \<not> isWhiteSpace c) \<and>
   getGitDiff shell_staged = Inr (js ''diff --git a/g b/g'')"
proof -
  have h: "shell_staged GitDiffCached = Inr (js ''diff --git a/g b/g'')" by simp
  have n: "\<exists>c\<in>set (js ''diff --git a/g b/g''). \<not> isWhiteSpace c"
    by (simp add: js_def isWhiteSpace_def)
  from getGitDiff_staged_unless_blank[of shell_staged "js ''diff --git a/g b/g''"] h n
  show ?thesis by simp
qed

text \<open>
  A staged diff that is a lone line feed is not empty, and \<open>getGitDiff\<close> returns the
  unstaged diff.
\<close>

theorem getGitDiff_blank_staged:
  "shell_blank_staged GitDiffCached = Inr (js ''\<newline>'') \<and> js ''\<newline>'' \<noteq> [] \<and>
   getGitDiff shell_blank_staged = Inr (js ''diff --git a/f b/f'')"
  by (simp add: getGitDiff_def truthy_def trim_def trimStart_def trimEnd_def isWhiteSpace_def js_def)

subsection \<open>The final path segment\<close>

lemma sublist_slash_before_segment:
  assumes "sublist (x @ slash) (d @ name)" "0x2F \<notin> set name"
  shows "sublist (x @ slash) d"
proof -
  from assms(1) obtain ps ss where eq: "d @ name = (ps @ x @ slash) @ ss"
    by (auto simp: sublist_def)
  from eq append_eq_append_conv2[of d name "ps @ x @ slash" ss]
  consider us where "d = (ps @ x @ slash) @ us" | us where "d @ us = ps @ x @ slash" "name = us @ ss"
    by blast
  then show ?thesis
  proof cases
    case 1
    then show ?thesis by (auto simp: sublist_def)
  next
    case 2
    show ?thesis
    proof (cases "us = []")
      case True
      with 2 have "d = ps @ (x @ slash)" by simp
      then show ?thesis by (simp only: sublist_append_leftI)
    next
      case False
      from 2(1) have "last (d @ us) = last (ps @ x @ slash)" by simp
      with False have "last us = 0x2F" by (simp add: slash_def)
      with False have "0x2F \<in> set us" using last_in_set[of us] by simp
      with 2(2) assms(2) show ?thesis by simp
    qed
  qed
qed

lemma detectCompany_None_iff:
  "detectCompany cwd names = None \<longleftrightarrow> (\<forall>n\<in>set names. \<not> includes_js cwd (slash @ n @ slash))"
  by (induction names) auto

text \<open>
  C10, as the code has it. The test is \<open>cwd.includes("/" + name + "/")\<close>, so the
  final segment of the working directory never matches: when the directory is
  \<open>dir/name\<close> (\<open>name\<close> a segment, with no slash in it) and no prompt name is an
  interior segment of it (\<open>dir/\<close> includes no \<open>/n/\<close>), \<open>detectCompany\<close> returns
  \<open>null\<close> and the run exits with status 1 and the line listing the prompts, also
  when \<open>name\<close> is one of them.
\<close>

theorem detectCompany_final_segment:
  "0x2F \<notin> set name \<and> (\<forall>n\<in>set names. \<not> includes_js (dir @ slash) (slash @ n @ slash)) \<longrightarrow>
     detectCompany (dir @ slash @ name) names = None \<and>
     generate (e\<lparr> env_cwd := dir @ slash @ name, env_prompts := names \<rparr>)
       = Exit 1 (not_detected names)"
proof (intro impI)
  assume a: "0x2F \<notin> set name \<and> (\<forall>n\<in>set names. \<not> includes_js (dir @ slash) (slash @ n @ slash))"
  then have nm: "0x2F \<notin> set name"
    and dir: "\<And>n. n \<in> set names \<Longrightarrow> \<not> sublist ((slash @ n) @ slash) (dir @ slash)"
    by (simp_all add: includes_js_def)
  have "\<not> includes_js (dir @ slash @ name) (slash @ n @ slash)" if "n \<in> set names" for n
  proof
    assume "includes_js (dir @ slash @ name) (slash @ n @ slash)"
    then have "sublist ((slash @ n) @ slash) ((dir @ slash) @ name)"
      by (simp add: includes_js_def)
    then have "sublist ((slash @ n) @ slash) (dir @ slash)"
      using nm by (rule sublist_slash_before_segment)
    with dir[OF that] show False by contradiction
  qed
  then have none: "detectCompany (dir @ slash @ name) names = None"
    unfolding detectCompany_None_iff by blast
  have "generate (e\<lparr> env_cwd := dir @ slash @ name, env_prompts := names \<rparr>)
       = Exit 1 (not_detected names)"
    unfolding generate_def by (simp add: none)
  with none show "detectCompany (dir @ slash @ name) names = None \<and>
     generate (e\<lparr> env_cwd := dir @ slash @ name, env_prompts := names \<rparr>)
       = Exit 1 (not_detected names)"
    by (rule conjI)
qed

text \<open>The theorem in \<open>/home/u/work/acme\<close> with the prompts \<open>acme\<close> and \<open>other\<close>.\<close>

theorem detectCompany_final_segment_witness:
  "0x2F \<notin> set (js ''acme'') \<and>
   \<not> includes_js (js ''/home/u/work'' @ slash) (slash @ js ''acme'' @ slash) \<and>
   \<not> includes_js (js ''/home/u/work'' @ slash) (slash @ js ''other'' @ slash) \<and>
   detectCompany (js ''/home/u/work/acme'') [js ''acme'', js ''other''] = None \<and>
   generate env_acme = Exit 1 (js ''Could not detect project. Available prompts: acme, other'')"
proof -
  have h: "0x2F \<notin> set (js ''acme'')"
    "\<forall>n\<in>set [js ''acme'', js ''other'']. \<not> includes_js (js ''/home/u/work'' @ slash) (slash @ n @ slash)"
    by (simp_all add: js_def slash_def includes_js_def sublist_code(3))
  have c: "js ''/home/u/work'' @ slash @ js ''acme'' = js ''/home/u/work/acme''"
    by (simp add: js_def slash_def)
  have e: "env_acme\<lparr> env_cwd := js ''/home/u/work/acme'', env_prompts := [js ''acme'', js ''other''] \<rparr>
             = env_acme"
    by (simp add: env_acme_def)
  have n: "not_detected [js ''acme'', js ''other'']
             = js ''Could not detect project. Available prompts: acme, other''"
    by (simp add: not_detected_def js_def)
  from detectCompany_final_segment[of "js ''acme''" "[js ''acme'', js ''other'']" "js ''/home/u/work''" env_acme] h
  have "detectCompany (js ''/home/u/work/acme'') [js ''acme'', js ''other''] = None"
    "generate env_acme = Exit 1 (js ''Could not detect project. Available prompts: acme, other'')"
    unfolding c e n by blast+
  with h show ?thesis by simp
qed

text \<open>
  The final segment of \<open>/home/u/acme/acme\<close> is the prompt name \<open>acme\<close>, and the
  resolution returns \<open>acme\<close>: the name is an interior segment as well.
\<close>

theorem detectCompany_repeated_segment:
  "detectCompany (js ''/home/u/acme/acme'') [js ''acme''] = Some (js ''acme'')"
  by (simp add: includes_js_def slash_def js_def sublist_code(3))

end
